theory Spec2Isabelle
  imports Main "HOL-Library.Word"
begin

unbundle bit_operations_syntax

section \<open>Data model\<close>

text \<open>
  The C++ types of \<^verbatim>\<open>krabs/guid.hpp\<close> on its only platform (Windows, MSVC):
  \<^verbatim>\<open>char\<close> is a signed 8-bit integer, \<^verbatim>\<open>unsigned char\<close> an unsigned one, \<^verbatim>\<open>int\<close> has
  32 bits, \<^verbatim>\<open>unsigned short\<close> 16 and \<^verbatim>\<open>unsigned long\<close> 32. A word carries no sign: the
  sign is in how it is read (\<open>sint\<close>, \<open>scast\<close> for \<^verbatim>\<open>char\<close>; \<open>uint\<close>, \<open>ucast\<close> for
  \<^verbatim>\<open>unsigned char\<close>).
\<close>

type_synonym cchar = "8 word"
type_synonym uchar = "8 word"
type_synonym cint = "32 word"

text \<open>
  A \<^verbatim>\<open>const char*\<close> is modelled by the list of the characters that are valid from the
  pointer on; \<^verbatim>\<open>p + k\<close> is \<open>drop k\<close>. A read outside that list is undefined behaviour
  in C++: every function below returns \<open>None\<close> for it, and \<open>Some\<close> of its C++ result
  otherwise.
\<close>

definition char_at :: "cchar list \<Rightarrow> nat \<Rightarrow> cchar option" where
  "char_at str i = (if i < length str then Some (str ! i) else None)"

text \<open>The Windows \<^verbatim>\<open>GUID\<close> structure; \<^verbatim>\<open>Data4\<close> is an array of 8 bytes.\<close>

record GUID =
  Data1 :: "32 word"
  Data2 :: "16 word"
  Data3 :: "16 word"
  Data4 :: "uchar list"

text \<open>
  \<^verbatim>\<open>parse_guid\<close> throws \<^verbatim>\<open>std::runtime_error\<close> with one of three messages; the first
  carries the length it was given.
\<close>

datatype parse_error =
  IncorrectLength "32 word"
  | MissingHyphen
  | NonHexDigits

definition UUID_STRING_LENGTH :: nat where
  "UUID_STRING_LENGTH = 36"

definition DELIMITER :: uchar where
  "DELIMITER = 0x2D"

definition STR_POSITION_DATA1 :: nat where
  "STR_POSITION_DATA1 = 0"

definition STR_POSITION_DATA2 :: nat where
  "STR_POSITION_DATA2 = 8 + 1"

definition STR_POSITION_DATA3 :: nat where
  "STR_POSITION_DATA3 = STR_POSITION_DATA2 + 4 + 1"

definition STR_POSITION_DATA4_PART1 :: nat where
  "STR_POSITION_DATA4_PART1 = STR_POSITION_DATA3 + 4 + 1"

definition STR_POSITION_DATA4_PART2 :: nat where
  "STR_POSITION_DATA4_PART2 = STR_POSITION_DATA4_PART1 + 4 + 1"

section \<open>The hex decoders of \<^verbatim>\<open>guid_parser\<close>\<close>

text \<open>
  The character tests of \<^verbatim>\<open>hex_octet_to_byte\<close>: both operands of \<^verbatim>\<open>>=\<close> and \<^verbatim>\<open><=\<close> are
  promoted to \<^verbatim>\<open>int\<close>, so the \<^verbatim>\<open>char\<close> is read signed.
  \<open>0x30\<close> is \<^verbatim>\<open>'0'\<close>, \<open>0x39\<close> \<^verbatim>\<open>'9'\<close>, \<open>0x41\<close> \<^verbatim>\<open>'A'\<close>, \<open>0x46\<close> \<^verbatim>\<open>'F'\<close>, \<open>0x61\<close> \<^verbatim>\<open>'a'\<close>,
  \<open>0x66\<close> \<^verbatim>\<open>'f'\<close>.
\<close>

definition is_dec_digit :: "cchar \<Rightarrow> bool" where
  "is_dec_digit c \<longleftrightarrow> sint c \<ge> 0x30 \<and> sint c \<le> 0x39"

definition is_hex_letter :: "cchar \<Rightarrow> bool" where
  "is_hex_letter c \<longleftrightarrow>
     (sint c \<ge> 0x41 \<and> sint c \<le> 0x46) \<or> (sint c \<ge> 0x61 \<and> sint c \<le> 0x66)"

text \<open>
  \<^verbatim>\<open>bool hex_octet_to_byte(const char* str_input, unsigned char& byte_output)\<close>.
  The reference parameter is passed in and returned: the result is the returned
  \<^verbatim>\<open>bool\<close> with the value \<^verbatim>\<open>byte_output\<close> holds afterwards. Both characters are read
  before either is tested. \<open>msd_value\<close> and \<open>lsd_value\<close> are the two
  \<^verbatim>\<open>if\<close>/\<^verbatim>\<open>else if\<close>/\<^verbatim>\<open>else\<close> chains on the local \<^verbatim>\<open>int value\<close>, \<open>None\<close> being their
  \<^verbatim>\<open>return false\<close>. The \<^verbatim>\<open>assert\<close> on \<^verbatim>\<open>value\<close> never fails (lemma
  \<open>hex_octet_value_in_range\<close>), so it is not a branch of the model.
\<close>

definition msd_value :: "cchar \<Rightarrow> cint \<Rightarrow> cint option" where
  "msd_value msd val =
     (if is_dec_digit msd then Some (val OR push_bit 4 (scast msd AND 0x0F))
      else if is_hex_letter msd then Some (val OR push_bit 4 ((scast msd AND 0x0F) + 9))
      else None)"

definition lsd_value :: "cchar \<Rightarrow> cint \<Rightarrow> cint option" where
  "lsd_value lsd val =
     (if is_dec_digit lsd then Some (val OR (scast lsd AND 0x0F))
      else if is_hex_letter lsd then Some (val OR ((scast lsd AND 0x0F) + 9))
      else None)"

definition hex_octet_to_byte :: "cchar list \<Rightarrow> uchar \<Rightarrow> (bool \<times> uchar) option" where
  "hex_octet_to_byte str_input byte_output =
     (case char_at str_input 0 of
        None \<Rightarrow> None
      | Some msd \<Rightarrow>
          (case char_at str_input 1 of
             None \<Rightarrow> None
           | Some lsd \<Rightarrow>
               (case msd_value msd 0 of
                  None \<Rightarrow> Some (False, byte_output)
                | Some v1 \<Rightarrow>
                    (case lsd_value lsd v1 of
                       None \<Rightarrow> Some (False, byte_output)
                     | Some v2 \<Rightarrow> Some (True, ucast v2)))))"

text \<open>
  \<^verbatim>\<open>template<typename T> bool hex_string_to_number(const char* str_input, T& int_output)\<close>
  for an unsigned \<^verbatim>\<open>T\<close> of \<open>LENGTH('a)\<close> bits, so that \<^verbatim>\<open>sizeof(T)\<close> is
  \<open>LENGTH('a) div 8\<close>. The loop carries the locals \<^verbatim>\<open>value\<close> and \<^verbatim>\<open>byte\<close>;
  \<^verbatim>\<open>int_output\<close> is assigned after the loop only. For \<^verbatim>\<open>unsigned short\<close> the shift is
  done in \<^verbatim>\<open>int\<close> and narrowed by the assignment, which is the shift of the 16-bit word.
\<close>

function hex_string_to_number_loop ::
  "cchar list \<Rightarrow> nat \<Rightarrow> nat \<Rightarrow> 'a::len word \<Rightarrow> uchar \<Rightarrow> 'a word \<Rightarrow> (bool \<times> 'a word) option"
where
  "hex_string_to_number_loop str_input byte_count i val byte int_output =
     (if i < byte_count then
        (case hex_octet_to_byte (drop (i * 2) str_input) byte of
           None \<Rightarrow> None
         | Some (ok, byte') \<Rightarrow>
             if \<not> ok then Some (False, int_output)
             else hex_string_to_number_loop str_input byte_count (i + 1)
                    (push_bit 8 val OR ucast byte') byte' int_output)
      else Some (True, val))"
  by pat_completeness auto
termination
  by (relation "measure (\<lambda>(str_input, byte_count, i, val, byte, int_output). byte_count - i)") auto

definition hex_string_to_number :: "cchar list \<Rightarrow> 'a::len word \<Rightarrow> (bool \<times> 'a word) option" where
  "hex_string_to_number str_input int_output =
     hex_string_to_number_loop str_input (LENGTH('a) div 8) 0 0 0 int_output"

text \<open>
  \<^verbatim>\<open>bool hex_string_to_bytes(const char* str_input, unsigned char* byte_output,
  size_t byte_count)\<close>. \<^verbatim>\<open>byte_output\<close> is the list of the bytes that are valid from the
  pointer on, returned as the call leaves it. Each octet is decoded straight into
  \<^verbatim>\<open>byte_output[i]\<close>; an index outside the output is undefined behaviour too.
\<close>

function hex_string_to_bytes_loop ::
  "cchar list \<Rightarrow> uchar list \<Rightarrow> nat \<Rightarrow> nat \<Rightarrow> (bool \<times> uchar list) option"
where
  "hex_string_to_bytes_loop str_input byte_output byte_count i =
     (if i < byte_count then
        (if i < length byte_output then
           (case hex_octet_to_byte (drop (i * 2) str_input) (byte_output ! i) of
              None \<Rightarrow> None
            | Some (ok, b) \<Rightarrow>
                if \<not> ok then Some (False, byte_output[i := b])
                else hex_string_to_bytes_loop str_input (byte_output[i := b]) byte_count (i + 1))
         else None)
      else Some (True, byte_output))"
  by pat_completeness auto
termination
  by (relation "measure (\<lambda>(str_input, byte_output, byte_count, i). byte_count - i)") auto

definition hex_string_to_bytes ::
  "cchar list \<Rightarrow> uchar list \<Rightarrow> nat \<Rightarrow> (bool \<times> uchar list) option"
where
  "hex_string_to_bytes str_input byte_output byte_count =
     hex_string_to_bytes_loop str_input byte_output byte_count 0"

section \<open>\<^verbatim>\<open>guid_parser::parse_guid\<close>\<close>

text \<open>
  \<^verbatim>\<open>str[pos] != DELIMITER\<close>: the \<^verbatim>\<open>char\<close> is promoted signed, the
  \<^verbatim>\<open>unsigned char\<close> unsigned.
\<close>

definition not_delimiter_at :: "cchar list \<Rightarrow> nat \<Rightarrow> bool option" where
  "not_delimiter_at str pos =
     (case char_at str pos of None \<Rightarrow> None | Some c \<Rightarrow> Some (sint c \<noteq> uint DELIMITER))"

text \<open>C++ \<^verbatim>\<open>a || b\<close>: \<^verbatim>\<open>b\<close> is evaluated only when \<^verbatim>\<open>a\<close> is false.\<close>

definition or_else :: "bool option \<Rightarrow> bool option \<Rightarrow> bool option" where
  "or_else a b = (case a of None \<Rightarrow> None | Some True \<Rightarrow> Some True | Some False \<Rightarrow> b)"

definition hyphen_missing :: "cchar list \<Rightarrow> bool option" where
  "hyphen_missing str =
     or_else (not_delimiter_at str (STR_POSITION_DATA2 - 1))
       (or_else (not_delimiter_at str (STR_POSITION_DATA3 - 1))
          (or_else (not_delimiter_at str (STR_POSITION_DATA4_PART1 - 1))
             (not_delimiter_at str (STR_POSITION_DATA4_PART2 - 1))))"

text \<open>
  The \<^verbatim>\<open>&&\<close> chain that computes \<^verbatim>\<open>success\<close>: each decoder runs only when the ones
  before it returned true, and writes into its field of \<^verbatim>\<open>guid\<close>. \<^verbatim>\<open>&guid.Data4[k]\<close> is
  \<open>drop k (Data4 guid)\<close>, written back behind the first \<open>k\<close> bytes.
\<close>

definition decode_fields :: "cchar list \<Rightarrow> GUID \<Rightarrow> (bool \<times> GUID) option" where
  "decode_fields str guid =
     (case hex_string_to_number (drop STR_POSITION_DATA1 str) (Data1 guid) of
        None \<Rightarrow> None
      | Some (ok1, d1) \<Rightarrow>
          let guid = guid\<lparr>Data1 := d1\<rparr> in
          if \<not> ok1 then Some (False, guid)
          else
     (case hex_string_to_number (drop STR_POSITION_DATA2 str) (Data2 guid) of
        None \<Rightarrow> None
      | Some (ok2, d2) \<Rightarrow>
          let guid = guid\<lparr>Data2 := d2\<rparr> in
          if \<not> ok2 then Some (False, guid)
          else
     (case hex_string_to_number (drop STR_POSITION_DATA3 str) (Data3 guid) of
        None \<Rightarrow> None
      | Some (ok3, d3) \<Rightarrow>
          let guid = guid\<lparr>Data3 := d3\<rparr> in
          if \<not> ok3 then Some (False, guid)
          else
     (case hex_string_to_bytes (drop STR_POSITION_DATA4_PART1 str) (drop 0 (Data4 guid)) 2 of
        None \<Rightarrow> None
      | Some (ok4, bs4) \<Rightarrow>
          let guid = guid\<lparr>Data4 := take 0 (Data4 guid) @ bs4\<rparr> in
          if \<not> ok4 then Some (False, guid)
          else
     (case hex_string_to_bytes (drop STR_POSITION_DATA4_PART2 str) (drop 2 (Data4 guid)) 6 of
        None \<Rightarrow> None
      | Some (ok5, bs5) \<Rightarrow>
          let guid = guid\<lparr>Data4 := take 2 (Data4 guid) @ bs5\<rparr> in
          Some (ok5, guid))))))"

text \<open>
  \<^verbatim>\<open>GUID parse_guid(const char* str, unsigned int length)\<close>: \<open>Inl\<close> is the exception
  thrown, \<open>Inr\<close> the GUID returned. \<^verbatim>\<open>length\<close> is compared as a \<^verbatim>\<open>size_t\<close>;
  \<^verbatim>\<open>GUID guid = { 0 }\<close> zeroes every field.
\<close>

definition parse_guid :: "cchar list \<Rightarrow> 32 word \<Rightarrow> (parse_error + GUID) option" where
  "parse_guid str length' =
     (if unat length' \<noteq> UUID_STRING_LENGTH then Some (Inl (IncorrectLength length'))
      else
        let guid = \<lparr>Data1 = 0, Data2 = 0, Data3 = 0, Data4 = replicate 8 0\<rparr> in
        (case hyphen_missing str of
           None \<Rightarrow> None
         | Some True \<Rightarrow> Some (Inl MissingHyphen)
         | Some False \<Rightarrow>
             (case decode_fields str guid of
                None \<Rightarrow> None
              | Some (success, guid') \<Rightarrow>
                  if \<not> success then Some (Inl NonHexDigits) else Some (Inr guid'))))"

section \<open>The format in the words of the specification\<close>

text \<open>A C string literal: the characters of an Isabelle string as \<^verbatim>\<open>char\<close>s.\<close>

definition cstr :: "string \<Rightarrow> cchar list" where
  "cstr s = map of_char s"

text \<open>The hex alphabet \<open>0-9\<close>, \<open>A-F\<close>, \<open>a-f\<close>, and the value of a digit of it.\<close>

definition is_hex_char :: "cchar \<Rightarrow> bool" where
  "is_hex_char c \<longleftrightarrow> c \<in> set (cstr ''0123456789ABCDEFabcdef'')"

definition hex_digit_value :: "cchar \<Rightarrow> nat" where
  "hex_digit_value c =
     (if c \<in> set (cstr ''0123456789'') then unat c - 0x30
      else if c \<in> set (cstr ''ABCDEF'') then unat c - 0x41 + 10
      else unat c - 0x61 + 10)"

text \<open>The number a run of hex digits denotes, most significant digit first.\<close>

definition hex_run_value :: "cchar list \<Rightarrow> nat" where
  "hex_run_value cs = foldl (\<lambda>acc c. 16 * acc + hex_digit_value c) 0 cs"

text \<open>The byte two hex digits denote, and the bytes of a run of octets.\<close>

definition octet_value :: "cchar \<Rightarrow> cchar \<Rightarrow> uchar" where
  "octet_value msd lsd = of_nat (16 * hex_digit_value msd + hex_digit_value lsd)"

fun hex_run_bytes :: "cchar list \<Rightarrow> uchar list" where
  "hex_run_bytes (msd # lsd # cs) = octet_value msd lsd # hex_run_bytes cs"
| "hex_run_bytes _ = []"

text \<open>The characters of \<open>str\<close> at positions \<open>[lo, hi)\<close>.\<close>

definition substr :: "nat \<Rightarrow> nat \<Rightarrow> 'a list \<Rightarrow> 'a list" where
  "substr lo hi str = take (hi - lo) (drop lo str)"

text \<open>The number of leading octets of a run whose two characters are both hex digits.\<close>

fun valid_octets :: "cchar list \<Rightarrow> nat" where
  "valid_octets (msd # lsd # cs) =
     (if is_hex_char msd \<and> is_hex_char lsd then Suc (valid_octets cs) else 0)"
| "valid_octets _ = 0"

text \<open>
  The canonical text form \<^verbatim>\<open>XXXXXXXX-XXXX-XXXX-XXXX-XXXXXXXXXXXX\<close>: hyphens at the
  positions 8, 13, 18 and 23, hex digits at the 32 others, and the GUID it denotes.
\<close>

definition hyphens_in_place :: "cchar list \<Rightarrow> bool" where
  "hyphens_in_place str \<longleftrightarrow>
     str ! 8 = 0x2D \<and> str ! 13 = 0x2D \<and> str ! 18 = 0x2D \<and> str ! 23 = 0x2D"

definition hex_digits_in_place :: "cchar list \<Rightarrow> bool" where
  "hex_digits_in_place str \<longleftrightarrow>
     list_all is_hex_char (substr 0 8 str) \<and> list_all is_hex_char (substr 9 13 str) \<and>
     list_all is_hex_char (substr 14 18 str) \<and> list_all is_hex_char (substr 19 23 str) \<and>
     list_all is_hex_char (substr 24 36 str)"

definition guid_of_text :: "cchar list \<Rightarrow> GUID" where
  "guid_of_text str =
     \<lparr>Data1 = of_nat (hex_run_value (substr 0 8 str)),
      Data2 = of_nat (hex_run_value (substr 9 13 str)),
      Data3 = of_nat (hex_run_value (substr 14 18 str)),
      Data4 = hex_run_bytes (substr 19 23 str) @ hex_run_bytes (substr 24 36 str)\<rparr>"

text \<open>
  Two characters that differ at most in letter case: equal, or the same hex letter
  in upper and in lower case (\<open>0x20\<close> apart).
\<close>

definition flip_case :: "cchar \<Rightarrow> cchar" where
  "flip_case c =
     (if c \<in> set (cstr ''ABCDEF'') then c + 0x20
      else if c \<in> set (cstr ''abcdef'') then c - 0x20
      else c)"

definition same_up_to_case :: "cchar \<Rightarrow> cchar \<Rightarrow> bool" where
  "same_up_to_case c d \<longleftrightarrow> d = c \<or> d = flip_case c"

section \<open>The identifier type \<^verbatim>\<open>krabs::guid\<close>\<close>

text \<open>
  \<^verbatim>\<open>guid::guid(GUID guid) : guid_(guid)\<close>: the class holds the 16-byte structure it is
  given.
\<close>

definition from_bytes :: "GUID \<Rightarrow> GUID" where
  "from_bytes guid = guid"

text \<open>
  Modelled from the spec: the two string conversions. In the source,
  \<^verbatim>\<open>std::to_wstring(const krabs::guid&)\<close> and \<^verbatim>\<open>guid::guid(const std::wstring&)\<close> hand the
  work to the Windows functions \<^verbatim>\<open>StringFromCLSID\<close> and \<^verbatim>\<open>CLSIDFromString\<close>, whose code
  is not in the repository. Section 4.1 of the specification has \<open>to_canonical_string\<close>
  produce "lowercase or platform-canonical hex, hyphens inserted at the four fixed
  offsets" (\<open>upper\<close> chooses the case of the letters), and has \<open>from_canonical_string\<close>
  "delegate to the Parser component", which is \<open>parse_guid\<close> above.
\<close>

definition hex_digit_char :: "bool \<Rightarrow> nat \<Rightarrow> cchar" where
  "hex_digit_char upper d =
     (if d < 10 then 0x30 + of_nat d
      else (if upper then 0x41 else 0x61) + of_nat (d - 10))"

definition byte_to_hex :: "bool \<Rightarrow> uchar \<Rightarrow> cchar list" where
  "byte_to_hex upper b =
     [hex_digit_char upper (unat b div 16), hex_digit_char upper (unat b mod 16)]"

definition bytes_to_hex :: "bool \<Rightarrow> uchar list \<Rightarrow> cchar list" where
  "bytes_to_hex upper bs = concat (map (byte_to_hex upper) bs)"

text \<open>The bytes of a number, most significant first.\<close>

definition number_bytes :: "nat \<Rightarrow> 'a::len word \<Rightarrow> uchar list" where
  "number_bytes n w = map (\<lambda>k. ucast (drop_bit (8 * k) w)) (rev [0..<n])"

definition to_canonical_string :: "bool \<Rightarrow> GUID \<Rightarrow> cchar list" where
  "to_canonical_string upper guid =
     bytes_to_hex upper (number_bytes 4 (Data1 guid)) @ [0x2D] @
     bytes_to_hex upper (number_bytes 2 (Data2 guid)) @ [0x2D] @
     bytes_to_hex upper (number_bytes 2 (Data3 guid)) @ [0x2D] @
     bytes_to_hex upper (take 2 (Data4 guid)) @ [0x2D] @
     bytes_to_hex upper (drop 2 (Data4 guid))"

definition from_canonical_string :: "cchar list \<Rightarrow> (parse_error + GUID) option" where
  "from_canonical_string text = parse_guid text (of_nat (length text))"

section \<open>\<^verbatim>\<open>EventRecordMetadata::GetContainerId\<close>\<close>

text \<open>
  The fields of \<^verbatim>\<open>EVENT_RECORD\<close> and \<^verbatim>\<open>EVENT_HEADER_EXTENDED_DATA_ITEM\<close> that
  \<^verbatim>\<open>GetContainerId\<close> reads. \<^verbatim>\<open>DataPtr\<close> is the list of the bytes valid at the address,
  read as \<^verbatim>\<open>char\<close>; \<^verbatim>\<open>DataSize\<close> is the length the item declares. \<^verbatim>\<open>ExtendedData\<close> is the
  list of the items valid at the pointer, \<^verbatim>\<open>ExtendedDataCount\<close> the count the record
  declares.
\<close>

type_synonym wchar = "16 word"

record EVENT_HEADER_EXTENDED_DATA_ITEM =
  ExtType :: "16 word"
  DataSize :: "16 word"
  DataPtr :: "cchar list"

record EVENT_RECORD =
  ExtendedDataCount :: "16 word"
  ExtendedData :: "EVENT_HEADER_EXTENDED_DATA_ITEM list"

text \<open>
  What the method depends on and the source files do not define: the tag
  \<^verbatim>\<open>EVENT_HEADER_EXT_TYPE_CONTAINER_ID\<close> and the function \<^verbatim>\<open>CLSIDFromString\<close> of the
  Windows headers (it returns an \<^verbatim>\<open>HRESULT\<close> and the GUID it wrote), \<^verbatim>\<open>ConvertGuid\<close> of
  \<^verbatim>\<open>Guid.hpp\<close> to the managed type \<open>'g\<close>, and whether \<^verbatim>\<open>assert\<close> is compiled in
  (\<^verbatim>\<open>NDEBUG\<close> not defined).
\<close>

record 'g platform =
  EVENT_HEADER_EXT_TYPE_CONTAINER_ID :: "16 word"
  CLSIDFromString :: "wchar list \<Rightarrow> 32 word \<times> GUID"
  ConvertGuid :: "GUID \<Rightarrow> 'g"
  assertions_enabled :: bool

definition S_OK :: "32 word" where
  "S_OK = 0"

text \<open>
  The method returns a \<^verbatim>\<open>Nullable<Guid>\<close>, throws \<^verbatim>\<open>ContainerIdFormatException\<close> (its
  message is formatted from the error code and the buffer), or stops at a failed
  \<^verbatim>\<open>assert\<close>.
\<close>

datatype 'g container_id_outcome =
  Returned "'g option"
  | ContainerIdFormatException "32 word" "wchar list"
  | AssertionFailed

definition CONTAINER_ID_DATA_LENGTH_IN_BYTES :: nat where
  "CONTAINER_ID_DATA_LENGTH_IN_BYTES = 36"

text \<open>
  \<^verbatim>\<open>wchar_t guid_string_buffer[1 + 36 + 2] = L"{00000000-0000-0000-0000-000000000000}"\<close>,
  with its terminator.
\<close>

definition guid_string_buffer_init :: "wchar list" where
  "guid_string_buffer_init = map of_char ''{00000000-0000-0000-0000-000000000000}'' @ [0]"

text \<open>
  The copying loop: \<^verbatim>\<open>guid_string_buffer[c + 1] = (wchar_t)((char*)DataPtr)[c]\<close> for
  \<open>c\<close> below 36, whatever \<^verbatim>\<open>DataSize\<close> is. The \<^verbatim>\<open>char\<close> is sign-extended.
\<close>

function copy_container_id :: "cchar list \<Rightarrow> wchar list \<Rightarrow> nat \<Rightarrow> wchar list option" where
  "copy_container_id data guid_string_buffer c =
     (if c < CONTAINER_ID_DATA_LENGTH_IN_BYTES then
        (case char_at data c of
           None \<Rightarrow> None
         | Some ch \<Rightarrow> copy_container_id data (guid_string_buffer[c + 1 := scast ch]) (c + 1))
      else Some guid_string_buffer)"
  by pat_completeness auto
termination
  by (relation "measure (\<lambda>(data, guid_string_buffer, c). CONTAINER_ID_DATA_LENGTH_IN_BYTES - c)")
    auto

text \<open>The body of \<^verbatim>\<open>if (extended_data.ExtType == EVENT_HEADER_EXT_TYPE_CONTAINER_ID)\<close>.\<close>

definition container_id_of_item ::
  "'g platform \<Rightarrow> EVENT_HEADER_EXTENDED_DATA_ITEM \<Rightarrow> 'g container_id_outcome option"
where
  "container_id_of_item p extended_data =
     (if assertions_enabled p \<and>
         unat (DataSize extended_data) \<noteq> CONTAINER_ID_DATA_LENGTH_IN_BYTES
      then Some AssertionFailed
      else
        (case copy_container_id (DataPtr extended_data) guid_string_buffer_init 0 of
           None \<Rightarrow> None
         | Some guid_string_buffer \<Rightarrow>
             (case CLSIDFromString p guid_string_buffer of
                (guid_conversion_error, container_guid) \<Rightarrow>
                  if guid_conversion_error \<noteq> S_OK
                  then Some (ContainerIdFormatException guid_conversion_error guid_string_buffer)
                  else Some (Returned (Some (ConvertGuid p container_guid))))))"

function GetContainerId_loop ::
  "'g platform \<Rightarrow> EVENT_RECORD \<Rightarrow> nat \<Rightarrow> 'g container_id_outcome option"
where
  "GetContainerId_loop p record i =
     (if i < unat (ExtendedDataCount record) then
        (if i < length (ExtendedData record) then
           (let extended_data = ExtendedData record ! i in
            if ExtType extended_data = EVENT_HEADER_EXT_TYPE_CONTAINER_ID p
            then container_id_of_item p extended_data
            else GetContainerId_loop p record (i + 1))
         else None)
      else Some (Returned None))"
  by pat_completeness auto
termination
  by (relation "measure (\<lambda>(p, record, i). unat (ExtendedDataCount record) - i)") auto

definition GetContainerId :: "'g platform \<Rightarrow> EVENT_RECORD \<Rightarrow> 'g container_id_outcome option" where
  "GetContainerId p record = GetContainerId_loop p record 0"

text \<open>
  Modelled from the spec: a stand-in for the platform's \<^verbatim>\<open>CLSIDFromString\<close>, which is not
  in the repository, for evaluating \<^verbatim>\<open>GetContainerId\<close> on concrete records. Section 4.3
  of the specification has the extractor "invoke the Parser" on its local buffer: the
  stand-in takes the 36 characters between the braces and gives them to \<open>parse_guid\<close>.
  \<open>0x800401F3\<close> is \<^verbatim>\<open>CO_E_CLASSSTRING\<close>.
\<close>

definition CLSIDFromString_model :: "wchar list \<Rightarrow> 32 word \<times> GUID" where
  "CLSIDFromString_model buf =
     (let failed = (0x800401F3, \<lparr>Data1 = 0, Data2 = 0, Data3 = 0, Data4 = replicate 8 0\<rparr>) in
      if length buf = 39 \<and> buf ! 0 = 0x7B \<and> buf ! 37 = 0x7D \<and> buf ! 38 = 0 \<and>
         list_all (\<lambda>w. w < 0x80) buf
      then
        (case parse_guid (map ucast (substr 1 37 buf)) 36 of
           Some (Inr guid) \<Rightarrow> (S_OK, guid)
         | _ \<Rightarrow> failed)
      else failed)"

section \<open>The hex alphabet and the character tests of the code\<close>

lemma sint_range_cases:
  fixes c :: cchar
  assumes "lo \<le> sint c" "sint c \<le> hi"
  shows "c \<in> word_of_int ` {lo..hi}"
proof -
  have "c = word_of_int (sint c)" by simp
  with assms show ?thesis by (metis atLeastAtMost_iff imageI)
qed

lemma is_dec_digit_cases:
  assumes "is_dec_digit c"
  shows "c = 0x30 \<or> c = 0x31 \<or> c = 0x32 \<or> c = 0x33 \<or> c = 0x34 \<or> c = 0x35 \<or> c = 0x36
    \<or> c = 0x37 \<or> c = 0x38 \<or> c = 0x39"
proof -
  from assms have "c \<in> word_of_int ` {0x30..0x39}"
    unfolding is_dec_digit_def by (intro sint_range_cases) auto
  also have "{0x30..0x39::int} = {0x30,0x31,0x32,0x33,0x34,0x35,0x36,0x37,0x38,0x39}"
    by (auto; arith)
  finally show ?thesis by simp
qed

lemma is_hex_letter_cases:
  assumes "is_hex_letter c"
  shows "c = 0x41 \<or> c = 0x42 \<or> c = 0x43 \<or> c = 0x44 \<or> c = 0x45 \<or> c = 0x46
    \<or> c = 0x61 \<or> c = 0x62 \<or> c = 0x63 \<or> c = 0x64 \<or> c = 0x65 \<or> c = 0x66"
proof -
  from assms have "c \<in> word_of_int ` {0x41..0x46} \<or> c \<in> word_of_int ` {0x61..0x66}"
    unfolding is_hex_letter_def by (auto intro: sint_range_cases)
  moreover have "{0x41..0x46::int} = {0x41,0x42,0x43,0x44,0x45,0x46}" by (auto; arith)
  moreover have "{0x61..0x66::int} = {0x61,0x62,0x63,0x64,0x65,0x66}" by (auto; arith)
  ultimately show ?thesis by auto
qed

lemmas hex_char_defs = is_hex_char_def cstr_def is_dec_digit_def is_hex_letter_def

lemma is_hex_char_iff: "is_hex_char c \<longleftrightarrow> is_dec_digit c \<or> is_hex_letter c"
proof
  assume "is_hex_char c"
  then show "is_dec_digit c \<or> is_hex_letter c"
    by (auto simp: hex_char_defs)
next
  assume "is_dec_digit c \<or> is_hex_letter c"
  then show "is_hex_char c"
    using is_dec_digit_cases[of c] is_hex_letter_cases[of c]
    by (auto simp: is_hex_char_def cstr_def)
qed

lemma hex_digit_value_less: "is_hex_char c \<Longrightarrow> hex_digit_value c < 16"
  unfolding is_hex_char_def cstr_def
  by (simp, elim disjE; simp add: hex_digit_value_def cstr_def)

lemma msd_value_eq:
  "msd_value c 0 = (if is_hex_char c then Some (of_nat (16 * hex_digit_value c)) else None)"
proof (cases "is_dec_digit c")
  case True
  from is_dec_digit_cases[OF this] show ?thesis
    by (elim disjE; simp add: msd_value_def hex_char_defs hex_digit_value_def)
next
  case nd: False
  show ?thesis
  proof (cases "is_hex_letter c")
    case True
    from is_hex_letter_cases[OF this] show ?thesis
      by (elim disjE; simp add: msd_value_def hex_char_defs hex_digit_value_def)
  next
    case False
    with nd show ?thesis by (simp add: msd_value_def is_hex_char_iff)
  qed
qed

lemma lsd_value_eq:
  "lsd_value c v = (if is_hex_char c then Some (v OR of_nat (hex_digit_value c)) else None)"
proof (cases "is_dec_digit c")
  case True
  from is_dec_digit_cases[OF this] show ?thesis
    by (elim disjE; simp add: lsd_value_def hex_char_defs hex_digit_value_def)
next
  case nd: False
  show ?thesis
  proof (cases "is_hex_letter c")
    case True
    from is_hex_letter_cases[OF this] show ?thesis
      by (elim disjE; simp add: lsd_value_def hex_char_defs hex_digit_value_def)
  next
    case False
    with nd show ?thesis by (simp add: lsd_value_def is_hex_char_iff)
  qed
qed

lemma push_bit_or_nat:
  fixes V k :: nat
  assumes "k < 2 ^ n"
  shows "push_bit n V OR k = 2 ^ n * V + k"
proof -
  have "push_bit n V + k = push_bit n V OR k"
  proof (rule disjunctive_add)
    fix m
    show "\<not> bit (push_bit n V) m \<or> \<not> bit k m"
    proof (cases "m < n")
      case True
      then show ?thesis by (simp add: bit_push_bit_iff)
    next
      case False
      then have "2 ^ n \<le> (2::nat) ^ m" by simp
      with assms have "k < 2 ^ m" by linarith
      then show ?thesis by (simp add: bit_iff_odd)
    qed
  qed
  then show ?thesis by (simp add: push_bit_eq_mult mult.commute)
qed

lemma octet_word:
  assumes "x < 16" "y < 16"
  shows "ucast (of_nat (16 * x) OR of_nat y :: 32 word) = (of_nat (16 * x + y) :: 8 word)"
proof -
  have "16 * x OR y = 16 * x + y"
    using push_bit_or_nat[of y 4 x] assms by (simp add: push_bit_eq_mult mult.commute)
  then have "(of_nat (16 * x) OR of_nat y :: 32 word) = of_nat (16 * x + y)"
    by (metis of_nat_or_eq)
  moreover have "ucast (of_nat N :: 32 word) = (of_nat N :: 8 word)" if "N < 256" for N
    using that by (simp add: unsigned_of_nat take_bit_nat_eq_self)
  moreover have "16 * x + y < 256" using assms by simp
  ultimately show ?thesis by metis
qed

text \<open>The \<^verbatim>\<open>assert(value >= 0 && value <= UCHAR_MAX)\<close> of \<^verbatim>\<open>hex_octet_to_byte\<close> holds whenever it is reached.\<close>

lemma sint_of_nat_small:
  assumes "N < 256"
  shows "sint (of_nat N :: 32 word) = int N"
proof -
  have "take_bit 32 N = N"
    using assms by (intro take_bit_nat_eq_self) simp
  then have "sint (of_nat N :: 32 word) = signed_take_bit 31 (int N)"
    by (simp add: sint_uint unsigned_of_nat)
  also have "\<dots> = int N"
    using assms by (intro signed_take_bit_int_eq_self) simp_all
  finally show ?thesis .
qed

lemma hex_octet_value_in_range:
  assumes "msd_value msd 0 = Some v1" and "lsd_value lsd v1 = Some v2"
  shows "0 \<le> sint v2 \<and> sint v2 \<le> 255"
proof -
  from assms(1) have m: "is_hex_char msd" and v1: "v1 = of_nat (16 * hex_digit_value msd)"
    by (simp_all add: msd_value_eq split: if_splits del: of_nat_mult)
  from assms(2) have l: "is_hex_char lsd" and v2: "v2 = v1 OR of_nat (hex_digit_value lsd)"
    by (simp_all add: lsd_value_eq split: if_splits)
  let ?x = "hex_digit_value msd" and ?y = "hex_digit_value lsd"
  have x: "?x < 16" and y: "?y < 16" using m l by (simp_all add: hex_digit_value_less)
  then have "16 * ?x OR ?y = 16 * ?x + ?y"
    using push_bit_or_nat[of ?y 4 ?x] by (simp add: push_bit_eq_mult mult.commute)
  then have "v2 = of_nat (16 * ?x + ?y)"
    unfolding v2 v1 by (metis of_nat_or_eq)
  moreover have "16 * ?x + ?y < 256" using x y by simp
  ultimately show ?thesis by (simp only: sint_of_nat_small) simp
qed

lemma hex_octet_to_byte_Cons:
  "hex_octet_to_byte (msd # lsd # rest) byte_output =
     Some (if is_hex_char msd \<and> is_hex_char lsd then (True, octet_value msd lsd)
           else (False, byte_output))"
  by (simp add: hex_octet_to_byte_def char_at_def msd_value_eq lsd_value_eq octet_value_def
      octet_word hex_digit_value_less del: of_nat_mult of_nat_add)

lemma hex_octet_to_byte_short:
  "length str_input < 2 \<Longrightarrow> hex_octet_to_byte str_input byte_output = None"
  by (auto simp add: hex_octet_to_byte_def char_at_def split: option.splits)

lemma hex_octet_to_byte_eq:
  "hex_octet_to_byte str_input byte_output =
     (if length str_input < 2 then None
      else Some (if is_hex_char (str_input ! 0) \<and> is_hex_char (str_input ! 1)
                 then (True, octet_value (str_input ! 0) (str_input ! 1))
                 else (False, byte_output)))"
proof (cases str_input)
  case Nil
  then show ?thesis by (simp add: hex_octet_to_byte_short)
next
  case (Cons a as)
  then show ?thesis
    by (cases as) (simp_all add: hex_octet_to_byte_short hex_octet_to_byte_Cons)
qed

lemma octet_value_unat:
  assumes "is_hex_char msd" "is_hex_char lsd"
  shows "unat (octet_value msd lsd) = 16 * hex_digit_value msd + hex_digit_value lsd"
proof -
  have "16 * hex_digit_value msd + hex_digit_value lsd < 256"
    using hex_digit_value_less[OF assms(1)] hex_digit_value_less[OF assms(2)] by simp
  moreover have "unat (of_nat N :: 8 word) = N" if "N < 256" for N
    using that by (simp add: unat_of_nat)
  ultimately show ?thesis unfolding octet_value_def by blast
qed

lemma shift_in_octet:
  assumes "k < 256"
  shows "push_bit 8 (of_nat V :: 'a::len word) OR ucast (of_nat k :: 8 word) = of_nat (256 * V + k)"
proof -
  have "ucast (of_nat k :: 8 word) = (of_nat k :: 'a word)"
    using assms by (simp add: unsigned_of_nat take_bit_nat_eq_self)
  moreover have "push_bit 8 (of_nat V :: 'a word) = of_nat (push_bit 8 V)"
    by (simp add: push_bit_eq_mult)
  moreover have "push_bit 8 V OR k = 256 * V + k"
    using push_bit_or_nat[of k 8 V] assms by simp
  ultimately show ?thesis by (metis of_nat_or_eq)
qed

section \<open>The decoding loops\<close>

declare hex_string_to_number_loop.simps [simp del]
declare hex_string_to_bytes_loop.simps [simp del]

lemma drop_two:
  assumes "i + 2 \<le> length str"
  shows "drop i str = str ! i # str ! (i + 1) # drop (i + 2) str"
proof -
  have "drop i str = str ! i # drop (Suc i) str"
    using assms by (simp add: Cons_nth_drop_Suc)
  moreover have "drop (Suc i) str = str ! (Suc i) # drop (Suc (Suc i)) str"
    using assms by (simp add: Cons_nth_drop_Suc)
  ultimately show ?thesis by simp
qed

lemma substr_two:
  assumes "lo + 2 \<le> hi" "hi \<le> length str"
  shows "substr lo hi str = str ! lo # str ! (lo + 1) # substr (lo + 2) hi str"
proof -
  have "hi - lo = Suc (Suc (hi - (lo + 2)))" using assms by simp
  then show ?thesis
    unfolding substr_def using drop_two[of lo str] assms by simp
qed

lemma substr_empty: "substr lo lo str = []"
  by (simp add: substr_def)

lemma hex_run_value_foldl:
  "foldl (\<lambda>acc c. 16 * acc + hex_digit_value c) V (a # b # cs) =
   foldl (\<lambda>acc c. 16 * acc + hex_digit_value c) (256 * V + (16 * hex_digit_value a + hex_digit_value b)) cs"
  by (simp add: add.assoc)

lemma hex_string_to_number_loop_eq:
  assumes "2 * n \<le> length str" "i \<le> n"
  shows "hex_string_to_number_loop str n i (of_nat V :: 'a::len word) byte int_output =
     Some (if list_all is_hex_char (substr (2 * i) (2 * n) str)
           then (True, of_nat (foldl (\<lambda>acc c. 16 * acc + hex_digit_value c) V
                                 (substr (2 * i) (2 * n) str)))
           else (False, int_output))"
  using assms(2)
proof (induction "n - i" arbitrary: i V byte)
  case 0
  then have "i = n" by simp
  then show ?case
    by (subst hex_string_to_number_loop.simps) (simp add: substr_empty)
next
  case (Suc k)
  then have lt: "i < n" and le: "i + 1 \<le> n" and k: "k = n - (i + 1)" by simp_all
  let ?a = "str ! (2 * i)" and ?b = "str ! (2 * i + 1)"
  have dr: "drop (i * 2) str = ?a # ?b # drop (2 * i + 2) str"
    using drop_two[of "2 * i" str] lt assms(1) by (simp add: mult.commute)
  have sl: "substr (2 * i) (2 * n) str = ?a # ?b # substr (2 * (i + 1)) (2 * n) str"
    using substr_two[of "2 * i" "2 * n" str] lt assms(1) by simp
  show ?case
  proof (cases "is_hex_char ?a \<and> is_hex_char ?b")
    case True
    have oct: "hex_octet_to_byte (drop (i * 2) str) byte = Some (True, octet_value ?a ?b)"
      using True by (simp add: dr hex_octet_to_byte_Cons)
    have step: "push_bit 8 (of_nat V :: 'a word) OR ucast (octet_value ?a ?b) =
        of_nat (256 * V + (16 * hex_digit_value ?a + hex_digit_value ?b))"
      unfolding octet_value_def
      using hex_digit_value_less[of ?a] hex_digit_value_less[of ?b] True
      by (intro shift_in_octet) simp
    have "hex_string_to_number_loop str n i (of_nat V :: 'a word) byte int_output =
        hex_string_to_number_loop str n (i + 1)
          (of_nat (256 * V + (16 * hex_digit_value ?a + hex_digit_value ?b)))
          (octet_value ?a ?b) int_output"
      by (subst hex_string_to_number_loop.simps) (simp only: oct lt step if_True option.case prod.case simp_thms if_False)
    also note Suc.hyps(1)[OF k le]
    finally show ?thesis
      using True by (simp only: sl hex_run_value_foldl list.pred_inject simp_thms)
  next
    case False
    have oct: "hex_octet_to_byte (drop (i * 2) str) byte = Some (False, byte)"
      using False by (simp add: dr hex_octet_to_byte_Cons)
    have "hex_string_to_number_loop str n i (of_nat V :: 'a word) byte int_output =
        Some (False, int_output)"
      by (subst hex_string_to_number_loop.simps) (simp only: oct lt if_True option.case prod.case simp_thms)
    then show ?thesis
      using False by (auto simp add: sl)
  qed
qed

lemma hex_string_to_number_eq:
  assumes "2 * (LENGTH('a) div 8) \<le> length str"
  shows "hex_string_to_number str (int_output :: 'a::len word) =
     Some (if list_all is_hex_char (take (2 * (LENGTH('a) div 8)) str)
           then (True, of_nat (hex_run_value (take (2 * (LENGTH('a) div 8)) str)))
           else (False, int_output))"
  using hex_string_to_number_loop_eq[OF assms, of 0 0 0 int_output]
  by (simp add: hex_string_to_number_def hex_run_value_def substr_def)

lemma hex_string_to_number_loop_failure:
  "hex_string_to_number_loop str_input byte_count i val byte int_output = Some (False, n)
   \<Longrightarrow> n = int_output"
proof (induction str_input byte_count i val byte int_output
    rule: hex_string_to_number_loop.induct)
  case (1 str_input byte_count i val byte int_output)
  show ?case
  proof (cases "i < byte_count")
    case False
    with "1.prems" show ?thesis
      by (subst (asm) hex_string_to_number_loop.simps) simp
  next
    case lt: True
    show ?thesis
    proof (cases "hex_octet_to_byte (drop (i * 2) str_input) byte")
      case None
      with "1.prems" lt show ?thesis
        by (subst (asm) hex_string_to_number_loop.simps) simp
    next
      case (Some r)
      obtain ok byte' where r: "r = (ok, byte')" by (cases r)
      show ?thesis
      proof (cases ok)
        case False
        with "1.prems" lt Some r show ?thesis
          by (subst (asm) hex_string_to_number_loop.simps) simp
      next
        case True
        with "1.prems" lt Some r have
          "hex_string_to_number_loop str_input byte_count (i + 1)
             (push_bit 8 val OR ucast byte') byte' int_output = Some (False, n)"
          by (subst (asm) hex_string_to_number_loop.simps) simp
        with "1.IH"[OF lt Some r[symmetric]] True show ?thesis by simp
      qed
    qed
  qed
qed

lemma hex_string_to_bytes_loop_eq:
  assumes "2 * n \<le> length str" "i \<le> n" "n \<le> length out"
  shows "hex_string_to_bytes_loop str out n i =
    (let k = min (n - i) (valid_octets (substr (2 * i) (2 * n) str))
     in Some (k = n - i,
              take i out @ hex_run_bytes (substr (2 * i) (2 * (i + k)) str) @ drop (i + k) out))"
  using assms(2,3)
proof (induction "n - i" arbitrary: i out)
  case 0
  then have "i = n" by simp
  then show ?case
    by (subst hex_string_to_bytes_loop.simps) (simp add: substr_empty)
next
  case (Suc m)
  then have lt: "i < n" and le: "i + 1 \<le> n" and m: "m = n - (i + 1)" by simp_all
  from lt Suc.prems have io: "i < length out" by simp
  let ?a = "str ! (2 * i)" and ?b = "str ! (2 * i + 1)"
  have dr: "drop (i * 2) str = ?a # ?b # drop (2 * i + 2) str"
    using drop_two[of "2 * i" str] lt assms(1) by (simp add: mult.commute)
  have sl: "substr (2 * i) (2 * n) str = ?a # ?b # substr (2 * (i + 1)) (2 * n) str"
    using substr_two[of "2 * i" "2 * n" str] lt assms(1) by simp
  show ?case
  proof (cases "is_hex_char ?a \<and> is_hex_char ?b")
    case True
    let ?v = "octet_value ?a ?b"
    let ?out = "out[i := ?v]"
    let ?k = "min (n - (i + 1)) (valid_octets (substr (2 * (i + 1)) (2 * n) str))"
    have oct: "hex_octet_to_byte (drop (i * 2) str) (out ! i) = Some (True, ?v)"
      using True by (simp add: dr hex_octet_to_byte_Cons)
    have len: "n \<le> length ?out" using Suc.prems by simp
    have "hex_string_to_bytes_loop str out n i = hex_string_to_bytes_loop str ?out n (i + 1)"
      by (subst hex_string_to_bytes_loop.simps) (simp add: oct lt io)
    also have "\<dots> = Some (?k = n - (i + 1),
        take (i + 1) ?out @ hex_run_bytes (substr (2 * (i + 1)) (2 * (i + 1 + ?k)) str)
          @ drop (i + 1 + ?k) ?out)"
      using Suc.hyps(1)[OF m le len] by (simp add: Let_def)
    finally have res: "hex_string_to_bytes_loop str out n i = Some (?k = n - (i + 1),
        take (i + 1) ?out @ hex_run_bytes (substr (2 * (i + 1)) (2 * (i + 1 + ?k)) str)
          @ drop (i + 1 + ?k) ?out)" .
    have k: "min (n - i) (valid_octets (substr (2 * i) (2 * n) str)) = Suc ?k"
      using True lt by (simp add: sl)
    have "2 * (i + Suc ?k) \<le> 2 * n" using lt by simp
    then have sl2: "substr (2 * i) (2 * (i + Suc ?k)) str =
        ?a # ?b # substr (2 * (i + 1)) (2 * (i + 1 + ?k)) str"
      using substr_two[of "2 * i" "2 * (i + Suc ?k)" str] assms(1) by simp
    have tk: "take (i + 1) ?out = take i out @ [?v]"
      using io by (simp add: take_Suc_conv_app_nth)
    have dp: "drop (i + 1 + ?k) ?out = drop (i + 1 + ?k) out"
      by simp
    show ?thesis
      unfolding res Let_def k sl2 tk dp using lt by auto
  next
    case False
    have oct: "hex_octet_to_byte (drop (i * 2) str) (out ! i) = Some (False, out ! i)"
      using False by (simp add: dr hex_octet_to_byte_Cons)
    have res: "hex_string_to_bytes_loop str out n i = Some (False, out)"
      by (subst hex_string_to_bytes_loop.simps) (simp add: oct lt io)
    have k: "min (n - i) (valid_octets (substr (2 * i) (2 * n) str)) = 0"
      using False by (auto simp add: sl)
    show ?thesis
      unfolding res Let_def k using lt by (simp add: substr_empty)
  qed
qed

lemma hex_string_to_bytes_eq:
  assumes "2 * n \<le> length str" "n \<le> length out"
  shows "hex_string_to_bytes str out n =
    (let k = min n (valid_octets (take (2 * n) str))
     in Some (k = n, hex_run_bytes (take (2 * k) str) @ drop k out))"
  using hex_string_to_bytes_loop_eq[OF assms(1) _ assms(2), of 0]
  by (simp add: hex_string_to_bytes_def substr_def)

lemma length_hex_run_bytes: "length (hex_run_bytes cs) = length cs div 2"
  by (induction cs rule: hex_run_bytes.induct) simp_all

lemma valid_octets_le: "valid_octets cs \<le> length cs div 2"
  by (induction cs rule: valid_octets.induct) simp_all

lemma valid_octets_all:
  "even (length cs) \<Longrightarrow> valid_octets cs = length cs div 2 \<longleftrightarrow> list_all is_hex_char cs"
proof (induction cs rule: valid_octets.induct)
  case (1 msd lsd cs)
  then show ?case by auto
qed simp_all

lemma min_valid_octets:
  assumes "2 * n \<le> length str"
  shows "min n (valid_octets (take (2 * n) str)) = n \<longleftrightarrow> list_all is_hex_char (take (2 * n) str)"
proof -
  have len: "length (take (2 * n) str) = 2 * n" using assms by simp
  then have "valid_octets (take (2 * n) str) \<le> n"
    using valid_octets_le[of "take (2 * n) str"] by simp
  moreover have "valid_octets (take (2 * n) str) = n \<longleftrightarrow> list_all is_hex_char (take (2 * n) str)"
    using valid_octets_all[of "take (2 * n) str"] len by simp
  ultimately show ?thesis by (auto simp add: min_def)
qed

lemma hex_string_to_bytes_success:
  assumes "2 * n \<le> length str" "n \<le> length out"
  shows "\<exists>bs. hex_string_to_bytes str out n = Some (list_all is_hex_char (take (2 * n) str), bs) \<and>
     (list_all is_hex_char (take (2 * n) str) \<longrightarrow> bs = hex_run_bytes (take (2 * n) str) @ drop n out)"
  using min_valid_octets[OF assms(1)] 
  by (auto simp add: hex_string_to_bytes_eq[OF assms] Let_def)

lemma not_delimiter_iff: "sint (c :: cchar) \<noteq> uint DELIMITER \<longleftrightarrow> c \<noteq> 0x2D"
proof -
  have "c = word_of_int (sint c)" by simp
  then have "sint c = 45 \<Longrightarrow> c = 45"
    by (metis word_of_int_numeral)
  moreover have "sint (45 :: cchar) = 45" by simp
  ultimately show ?thesis by (auto simp add: DELIMITER_def)
qed

section \<open>What \<^verbatim>\<open>parse_guid\<close> computes\<close>

lemmas str_positions =
  STR_POSITION_DATA1_def STR_POSITION_DATA2_def STR_POSITION_DATA3_def
  STR_POSITION_DATA4_PART1_def STR_POSITION_DATA4_PART2_def

lemma hyphen_missing_eq:
  assumes "36 \<le> length str"
  shows "hyphen_missing str = Some (\<not> hyphens_in_place str)"
  using assms
  by (auto simp add: hyphen_missing_def or_else_def not_delimiter_at_def char_at_def str_positions
      not_delimiter_iff hyphens_in_place_def split: bool.splits)

lemma decode_fields_eq:
  assumes "36 \<le> length str"
  shows "\<exists>g. decode_fields str \<lparr>Data1 = 0, Data2 = 0, Data3 = 0, Data4 = replicate 8 0\<rparr>
            = Some (hex_digits_in_place str, g) \<and>
           (hex_digits_in_place str \<longrightarrow> g = guid_of_text str)"
proof -
  let ?P1 = "list_all is_hex_char (substr 0 8 str)"
  let ?P2 = "list_all is_hex_char (substr 9 13 str)"
  let ?P3 = "list_all is_hex_char (substr 14 18 str)"
  let ?P4 = "list_all is_hex_char (substr 19 23 str)"
  let ?P5 = "list_all is_hex_char (substr 24 36 str)"
  have n1: "hex_string_to_number (drop STR_POSITION_DATA1 str) (0 :: 32 word) =
      Some (if ?P1 then (True, of_nat (hex_run_value (substr 0 8 str))) else (False, 0))"
    using assms by (simp add: hex_string_to_number_eq substr_def str_positions)
  have n2: "hex_string_to_number (drop STR_POSITION_DATA2 str) (0 :: 16 word) =
      Some (if ?P2 then (True, of_nat (hex_run_value (substr 9 13 str))) else (False, 0))"
    using assms by (simp add: hex_string_to_number_eq substr_def str_positions)
  have n3: "hex_string_to_number (drop STR_POSITION_DATA3 str) (0 :: 16 word) =
      Some (if ?P3 then (True, of_nat (hex_run_value (substr 14 18 str))) else (False, 0))"
    using assms by (simp add: hex_string_to_number_eq substr_def str_positions)
  obtain bs4 where b4: "hex_string_to_bytes (drop STR_POSITION_DATA4_PART1 str) (replicate 8 0) 2
        = Some (?P4, bs4)"
    and bs4: "?P4 \<longrightarrow> bs4 = hex_run_bytes (substr 19 23 str) @ replicate 6 0"
  proof -
    have "2 * 2 \<le> length (drop 19 str)" "2 \<le> length (replicate 8 (0 :: uchar))"
      using assms by simp_all
    from hex_string_to_bytes_success[OF this] that show ?thesis
      by (auto simp add: substr_def str_positions)
  qed
  obtain bs5 where b5: "hex_string_to_bytes (drop STR_POSITION_DATA4_PART2 str) (replicate 6 0) 6
        = Some (?P5, bs5)"
    and bs5: "?P5 \<longrightarrow> bs5 = hex_run_bytes (substr 24 36 str)"
  proof -
    have "2 * 6 \<le> length (drop 24 str)" "6 \<le> length (replicate 6 (0 :: uchar))"
      using assms by simp_all
    from hex_string_to_bytes_success[OF this] that show ?thesis
      by (auto simp add: substr_def str_positions)
  qed
  have l4: "length (hex_run_bytes (substr 19 23 str)) = 2"
    using assms by (simp add: length_hex_run_bytes substr_def)
  show ?thesis
  proof (cases "?P1 \<and> ?P2 \<and> ?P3 \<and> ?P4")
    case True
    with bs4 have e4: "bs4 = hex_run_bytes (substr 19 23 str) @ replicate 6 0" by simp
    show ?thesis
      using True bs5 l4
      by (simp add: decode_fields_def n1 n2 n3 b4 e4 b5 hex_digits_in_place_def guid_of_text_def)
  next
    case False
    then show ?thesis
      by (auto simp add: decode_fields_def n1 n2 n3 b4 hex_digits_in_place_def)
  qed
qed

lemma parse_guid_eq:
  assumes "36 \<le> length str"
  shows "parse_guid str 36 =
     Some (if \<not> hyphens_in_place str then Inl MissingHyphen
           else if hex_digits_in_place str then Inr (guid_of_text str)
           else Inl NonHexDigits)"
proof -
  obtain g where
    g: "decode_fields str \<lparr>Data1 = 0, Data2 = 0, Data3 = 0, Data4 = replicate 8 0\<rparr>
          = Some (hex_digits_in_place str, g)"
    and gt: "hex_digits_in_place str \<longrightarrow> g = guid_of_text str"
    using decode_fields_eq[OF assms] by blast
  show ?thesis
    using gt
    by (simp add: parse_guid_def UUID_STRING_LENGTH_def hyphen_missing_eq[OF assms] g)
qed

lemma list_all_substr:
  assumes "hi \<le> length str"
  shows "list_all P (substr lo hi str) \<longleftrightarrow> (\<forall>j. lo \<le> j \<and> j < hi \<longrightarrow> P (str ! j))"
proof -
  have "list_all P (substr lo hi str) \<longleftrightarrow> (\<forall>k < hi - lo. P (str ! (lo + k)))"
    using assms by (simp add: list_all_length substr_def)
  also have "\<dots> \<longleftrightarrow> (\<forall>j. lo \<le> j \<and> j < hi \<longrightarrow> P (str ! j))"
  proof (intro iffI allI impI)
    fix j assume a: "\<forall>k < hi - lo. P (str ! (lo + k))" and j: "lo \<le> j \<and> j < hi"
    from j have "j - lo < hi - lo" by arith
    with a have "P (str ! (lo + (j - lo)))" by blast
    with j show "P (str ! j)" by simp
  next
    fix k assume a: "\<forall>j. lo \<le> j \<and> j < hi \<longrightarrow> P (str ! j)" and "k < hi - lo"
    then show "P (str ! (lo + k))" by simp
  qed
  finally show ?thesis .
qed

lemma hex_digit_position_cases:
  "i < 36 \<and> i \<notin> {8, 13, 18, 23} \<longleftrightarrow>
   i < 8 \<or> 9 \<le> i \<and> i < 13 \<or> 14 \<le> i \<and> i < 18 \<or> 19 \<le> i \<and> i < 23 \<or> 24 \<le> i \<and> i < 36"
  for i :: nat
  by (simp only: insert_iff empty_iff) arith

lemma hex_digits_in_place_iff:
  assumes "36 \<le> length str"
  shows "hex_digits_in_place str \<longleftrightarrow>
    (\<forall>i<36. i \<notin> {8, 13, 18, 23} \<longrightarrow> is_hex_char (str ! i))"
proof -
  have 1: "list_all is_hex_char (substr 0 8 str) \<longleftrightarrow> (\<forall>j. j < 8 \<longrightarrow> is_hex_char (str ! j))"
    using assms by (simp add: list_all_substr)
  have 2: "list_all is_hex_char (substr 9 13 str) \<longleftrightarrow>
      (\<forall>j. 9 \<le> j \<and> j < 13 \<longrightarrow> is_hex_char (str ! j))"
    using assms by (simp add: list_all_substr)
  have 3: "list_all is_hex_char (substr 14 18 str) \<longleftrightarrow>
      (\<forall>j. 14 \<le> j \<and> j < 18 \<longrightarrow> is_hex_char (str ! j))"
    using assms by (simp add: list_all_substr)
  have 4: "list_all is_hex_char (substr 19 23 str) \<longleftrightarrow>
      (\<forall>j. 19 \<le> j \<and> j < 23 \<longrightarrow> is_hex_char (str ! j))"
    using assms by (simp add: list_all_substr)
  have 5: "list_all is_hex_char (substr 24 36 str) \<longleftrightarrow>
      (\<forall>j. 24 \<le> j \<and> j < 36 \<longrightarrow> is_hex_char (str ! j))"
    using assms by (simp add: list_all_substr)
  show ?thesis
  proof
    assume h: "hex_digits_in_place str"
    show "\<forall>i<36. i \<notin> {8, 13, 18, 23} \<longrightarrow> is_hex_char (str ! i)"
    proof (intro allI impI)
      fix i :: nat
      assume "i < 36" "i \<notin> {8, 13, 18, 23}"
      then consider "i < 8" | "9 \<le> i \<and> i < 13" | "14 \<le> i \<and> i < 18" | "19 \<le> i \<and> i < 23"
        | "24 \<le> i \<and> i < 36"
        using hex_digit_position_cases[of i] by blast
      then show "is_hex_char (str ! i)"
        using h unfolding hex_digits_in_place_def 1 2 3 4 5 by cases blast+
    qed
  next
    assume a: "\<forall>i<36. i \<notin> {8, 13, 18, 23} \<longrightarrow> is_hex_char (str ! i)"
    have "is_hex_char (str ! j)"
      if "j < 8 \<or> 9 \<le> j \<and> j < 13 \<or> 14 \<le> j \<and> j < 18 \<or> 19 \<le> j \<and> j < 23 \<or> 24 \<le> j \<and> j < 36"
      for j
      using that a hex_digit_position_cases[of j] by blast
    then show "hex_digits_in_place str"
      unfolding hex_digits_in_place_def 1 2 3 4 5 by blast
  qed
qed

lemma hex_run_value_less_aux:
  "list_all is_hex_char cs \<Longrightarrow>
   foldl (\<lambda>acc c. 16 * acc + hex_digit_value c) V cs < 16 ^ length cs * (V + 1)"
proof (induction cs arbitrary: V)
  case Nil
  then show ?case by simp
next
  case (Cons c cs)
  then have "hex_digit_value c < 16" and cs: "list_all is_hex_char cs"
    by (simp_all add: hex_digit_value_less)
  then have "16 * V + hex_digit_value c + 1 \<le> 16 * (V + 1)" by simp
  then have "16 ^ length cs * (16 * V + hex_digit_value c + 1) \<le> 16 ^ length cs * (16 * (V + 1))"
    by (rule mult_le_mono2)
  also have "\<dots> = 16 ^ length (c # cs) * (V + 1)" by (simp add: algebra_simps)
  finally have "16 ^ length cs * (16 * V + hex_digit_value c + 1) \<le> 16 ^ length (c # cs) * (V + 1)" .
  moreover have "foldl (\<lambda>acc c. 16 * acc + hex_digit_value c) V (c # cs)
      < 16 ^ length cs * (16 * V + hex_digit_value c + 1)"
    using Cons.IH[OF cs, of "16 * V + hex_digit_value c"] by simp
  ultimately show ?case by (rule less_le_trans[rotated])
qed

lemma hex_run_value_less:
  "list_all is_hex_char cs \<Longrightarrow> hex_run_value cs < 16 ^ length cs"
  using hex_run_value_less_aux[of cs 0] by (simp add: hex_run_value_def)

lemma unat_hex_run_value:
  assumes "list_all is_hex_char cs" "4 * length cs = LENGTH('a)"
  shows "unat (of_nat (hex_run_value cs) :: 'a::len word) = hex_run_value cs"
proof -
  have "(16::nat) ^ length cs = 2 ^ (4 * length cs)"
    by (simp add: power_mult)
  with hex_run_value_less[OF assms(1)] assms(2) have "hex_run_value cs < 2 ^ LENGTH('a)"
    by simp
  then show ?thesis by (simp add: unat_of_nat)
qed

lemma parse_guid_valid:
  assumes "36 \<le> length str" "parse_guid str 36 = Some (Inr guid)"
  shows "hyphens_in_place str \<and> hex_digits_in_place str"
  using assms(2) unfolding parse_guid_eq[OF assms(1)] by (simp split: if_splits)

section \<open>Letter case\<close>

lemma same_up_to_case_props:
  assumes "same_up_to_case c d"
  shows "is_hex_char d = is_hex_char c" and "hex_digit_value d = hex_digit_value c"
    and "d = 0x2D \<longleftrightarrow> c = 0x2D"
proof -
  have "is_hex_char d = is_hex_char c \<and> hex_digit_value d = hex_digit_value c \<and>
      (d = 0x2D \<longleftrightarrow> c = 0x2D)"
  proof (cases "d = c")
    case True
    then show ?thesis by simp
  next
    case False
    with assms have d: "d = flip_case c" by (simp add: same_up_to_case_def)
    with False have "c \<in> set (cstr ''ABCDEF'') \<or> c \<in> set (cstr ''abcdef'')"
      by (auto simp add: flip_case_def split: if_splits)
    then have "c = 0x41 \<or> c = 0x42 \<or> c = 0x43 \<or> c = 0x44 \<or> c = 0x45 \<or> c = 0x46 \<or>
        c = 0x61 \<or> c = 0x62 \<or> c = 0x63 \<or> c = 0x64 \<or> c = 0x65 \<or> c = 0x66"
      by (auto simp add: cstr_def)
    then show ?thesis
      unfolding d
      by (elim disjE; simp add: flip_case_def cstr_def is_hex_char_def hex_digit_value_def)
  qed
  then show "is_hex_char d = is_hex_char c" and "hex_digit_value d = hex_digit_value c"
    and "d = 0x2D \<longleftrightarrow> c = 0x2D" by simp_all
qed

lemma list_all2_substr:
  "list_all2 P xs ys \<Longrightarrow> list_all2 P (substr lo hi xs) (substr lo hi ys)"
  unfolding substr_def by (intro list_all2_takeI list_all2_dropI)

lemma same_up_to_case_list_all:
  "list_all2 same_up_to_case xs ys \<Longrightarrow> list_all is_hex_char ys = list_all is_hex_char xs"
  by (induction rule: list_all2_induct) (simp_all add: same_up_to_case_props)

lemma same_up_to_case_foldl:
  "list_all2 same_up_to_case xs ys \<Longrightarrow>
   foldl (\<lambda>acc c. 16 * acc + hex_digit_value c) V ys =
   foldl (\<lambda>acc c. 16 * acc + hex_digit_value c) V xs"
  by (induction arbitrary: V rule: list_all2_induct) (simp_all add: same_up_to_case_props)

lemma same_up_to_case_hex_run_bytes:
  "list_all2 same_up_to_case xs ys \<Longrightarrow> hex_run_bytes ys = hex_run_bytes xs"
proof (induction xs arbitrary: ys rule: hex_run_bytes.induct)
  case (1 msd lsd cs)
  then obtain msd' lsd' cs' where ys: "ys = msd' # lsd' # cs'"
    and "same_up_to_case msd msd'" "same_up_to_case lsd lsd'" "list_all2 same_up_to_case cs cs'"
    by (auto simp add: list_all2_Cons1)
  with "1.IH"[of cs'] show ?case
    by (simp add: octet_value_def same_up_to_case_props)
qed (auto simp add: list_all2_Cons1)

section \<open>Formatting and parsing again\<close>

lemma dec_digit_set: "set (cstr ''0123456789'') = {0x30,0x31,0x32,0x33,0x34,0x35,0x36,0x37,0x38,0x39}"
  by (simp add: cstr_def)

lemma upper_letter_set: "set (cstr ''ABCDEF'') = {0x41,0x42,0x43,0x44,0x45,0x46}"
  by (simp add: cstr_def)

lemma lower_letter_set: "set (cstr ''abcdef'') = {0x61,0x62,0x63,0x64,0x65,0x66}"
  by (simp add: cstr_def)

lemma hex_char_set: "set (cstr ''0123456789ABCDEFabcdef'') =
   {0x30,0x31,0x32,0x33,0x34,0x35,0x36,0x37,0x38,0x39,0x41,0x42,0x43,0x44,0x45,0x46,
    0x61,0x62,0x63,0x64,0x65,0x66}"
  by (simp add: cstr_def)

lemma hex_digit_char_props:
  assumes "d < 16"
  shows "is_hex_char (hex_digit_char upper d)" and "hex_digit_value (hex_digit_char upper d) = d"
proof -
  from assms have "d \<in> set [0..<16]" by simp
  also have "[0..<16] = [0, 1, 2, 3, 4, 5, 6, 7, 8, 9, 10, 11, 12, 13, 14, 15 :: nat]"
    by (simp add: upt_rec)
  finally have "d = 0 \<or> d = 1 \<or> d = 2 \<or> d = 3 \<or> d = 4 \<or> d = 5 \<or> d = 6 \<or> d = 7 \<or>
      d = 8 \<or> d = 9 \<or> d = 10 \<or> d = 11 \<or> d = 12 \<or> d = 13 \<or> d = 14 \<or> d = 15"
    by simp
  then have "is_hex_char (hex_digit_char upper d) \<and> hex_digit_value (hex_digit_char upper d) = d"
    by (cases upper; elim disjE;
        simp add: hex_digit_char_def;
        simp add: is_hex_char_def hex_digit_value_def hex_char_set dec_digit_set upper_letter_set)
  then show "is_hex_char (hex_digit_char upper d)"
    and "hex_digit_value (hex_digit_char upper d) = d" by simp_all
qed

lemma byte_to_hex_props:
  "list_all is_hex_char (byte_to_hex upper b)"
  "hex_run_bytes (byte_to_hex upper b @ cs) = b # hex_run_bytes cs"
  "foldl (\<lambda>acc c. 16 * acc + hex_digit_value c) V (byte_to_hex upper b) = 256 * V + unat b"
proof -
  have hi: "unat b div 16 < 16" using unsigned_less[of b, where 'a = nat] by simp
  have lo: "unat b mod 16 < 16" by simp
  show "list_all is_hex_char (byte_to_hex upper b)"
    by (simp add: byte_to_hex_def hex_digit_char_props[OF hi] hex_digit_char_props[OF lo])
  have "octet_value (hex_digit_char upper (unat b div 16)) (hex_digit_char upper (unat b mod 16))
      = of_nat (16 * (unat b div 16) + unat b mod 16)"
    unfolding octet_value_def
    by (simp only: hex_digit_char_props[OF hi] hex_digit_char_props[OF lo])
  also have "16 * (unat b div 16) + unat b mod 16 = unat b" by simp
  finally show "hex_run_bytes (byte_to_hex upper b @ cs) = b # hex_run_bytes cs"
    by (simp add: byte_to_hex_def)
  show "foldl (\<lambda>acc c. 16 * acc + hex_digit_value c) V (byte_to_hex upper b) = 256 * V + unat b"
    by (simp add: byte_to_hex_def hex_digit_char_props[OF hi] hex_digit_char_props[OF lo])
qed

lemma length_bytes_to_hex: "length (bytes_to_hex upper bs) = 2 * length bs"
  by (induction bs) (simp_all add: bytes_to_hex_def byte_to_hex_def)

lemma bytes_to_hex_all: "list_all is_hex_char (bytes_to_hex upper bs)"
  by (induction bs) (simp_all add: bytes_to_hex_def byte_to_hex_props)

lemma hex_run_bytes_bytes_to_hex: "hex_run_bytes (bytes_to_hex upper bs) = bs"
  by (induction bs) (simp_all add: bytes_to_hex_def byte_to_hex_props)

lemma foldl_bytes_to_hex:
  "foldl (\<lambda>acc c. 16 * acc + hex_digit_value c) V (bytes_to_hex upper bs) =
   foldl (\<lambda>acc b. 256 * acc + unat b) V bs"
  by (induction bs arbitrary: V) (simp_all add: bytes_to_hex_def byte_to_hex_props)

lemma shift_in_byte:
  "(of_nat (256 * V + unat (b :: uchar)) :: 'a::len word) = push_bit 8 (of_nat V) OR ucast b"
  using shift_in_octet[of "unat b" V, where 'a = 'a] unsigned_less[of b, where 'a = nat]
  by simp

lemma of_nat_foldl_bytes:
  "(of_nat (foldl (\<lambda>acc b. 256 * acc + unat b) V bs) :: 'a::len word) =
   foldl (\<lambda>acc b. push_bit 8 acc OR ucast b) (of_nat V) (bs :: uchar list)"
proof (induction bs arbitrary: V)
  case Nil
  show ?case by simp
next
  case (Cons b bs)
  show ?case by (simp only: foldl_Cons Cons.IH shift_in_byte)
qed

lemma number_bytes_4:
  "number_bytes 4 w = [ucast (drop_bit 24 w), ucast (drop_bit 16 w), ucast (drop_bit 8 w), ucast w]"
  by (simp add: number_bytes_def upt_rec)

lemma number_bytes_2:
  "number_bytes 2 w = [ucast (drop_bit 8 w), ucast w]"
  by (simp add: number_bytes_def upt_rec)


lemma number_of_bytes_32:
  "(of_nat (hex_run_value (bytes_to_hex upper (number_bytes 4 w))) :: 32 word) = w"
proof -
  have "(of_nat (hex_run_value (bytes_to_hex upper (number_bytes 4 w))) :: 32 word) =
      foldl (\<lambda>acc b. push_bit 8 acc OR ucast b) 0 (number_bytes 4 w)"
    unfolding hex_run_value_def foldl_bytes_to_hex of_nat_foldl_bytes by simp
  also have "\<dots> = w"
    unfolding number_bytes_4
  proof (rule bit_word_eqI)
    fix n :: nat
    assume "n < LENGTH(32)"
    then consider "n < 8" | "8 \<le> n \<and> n < 16" | "16 \<le> n \<and> n < 24" | "24 \<le> n \<and> n < 32"
      by fastforce
    then show "bit (foldl (\<lambda>acc b. push_bit 8 acc OR ucast b) (0 :: 32 word)
          [ucast (drop_bit 24 w) :: uchar, ucast (drop_bit 16 w), ucast (drop_bit 8 w), ucast w]) n
        = bit w n"
      by cases (auto simp add: bit_simps)
  qed
  finally show ?thesis .
qed

lemma number_of_bytes_16:
  "(of_nat (hex_run_value (bytes_to_hex upper (number_bytes 2 w))) :: 16 word) = w"
proof -
  have "(of_nat (hex_run_value (bytes_to_hex upper (number_bytes 2 w))) :: 16 word) =
      foldl (\<lambda>acc b. push_bit 8 acc OR ucast b) 0 (number_bytes 2 w)"
    unfolding hex_run_value_def foldl_bytes_to_hex of_nat_foldl_bytes by simp
  also have "\<dots> = w"
    unfolding number_bytes_2
    by (rule bit_word_eqI) (auto simp add: bit_simps)
  finally show ?thesis .
qed

lemma canonical_layout:
  fixes h :: "'a"
  assumes "length A = 8" "length B = 4" "length C = 4" "length D = 4" "length E = 12"
  defines "s \<equiv> A @ [h] @ B @ [h] @ C @ [h] @ D @ [h] @ E"
  shows "length s = 36"
    and "s ! 8 = h" "s ! 13 = h" "s ! 18 = h" "s ! 23 = h"
    and "substr 0 8 s = A" "substr 9 13 s = B" "substr 14 18 s = C"
    and "substr 19 23 s = D" "substr 24 36 s = E"
  using assms(1-5) unfolding s_def substr_def
  by (simp_all add: nth_append)

lemma length_number_bytes: "length (number_bytes n w) = n"
  by (simp add: number_bytes_def)

section \<open>The scan of the extended data items\<close>

declare GetContainerId_loop.simps [simp del]
declare copy_container_id.simps [simp del]

lemma GetContainerId_loop_find:
  assumes "unat (ExtendedDataCount record) \<le> length (ExtendedData record)"
    and "i \<le> unat (ExtendedDataCount record)"
  shows "GetContainerId_loop p record i =
     (case find (\<lambda>item. ExtType item = EVENT_HEADER_EXT_TYPE_CONTAINER_ID p)
             (drop i (take (unat (ExtendedDataCount record)) (ExtendedData record))) of
        None \<Rightarrow> Some (Returned None)
      | Some item \<Rightarrow> container_id_of_item p item)"
  using assms(2)
proof (induction "unat (ExtendedDataCount record) - i" arbitrary: i)
  case 0
  then have "i = unat (ExtendedDataCount record)" by simp
  then show ?case
    by (subst GetContainerId_loop.simps) simp
next
  case (Suc m)
  let ?n = "unat (ExtendedDataCount record)" and ?items = "ExtendedData record"
  from Suc have lt: "i < ?n" and le: "i + 1 \<le> ?n" and m: "m = ?n - (i + 1)" by simp_all
  from lt assms(1) have il: "i < length ?items" by simp
  have dr: "drop i (take ?n ?items) = ?items ! i # drop (i + 1) (take ?n ?items)"
    using lt il by (simp add: Cons_nth_drop_Suc[symmetric])
  show ?case
    using Suc.hyps(1)[OF m le]
    by (subst GetContainerId_loop.simps) (simp add: lt il dr Let_def)
qed

lemma GetContainerId_find:
  assumes "unat (ExtendedDataCount record) \<le> length (ExtendedData record)"
  shows "GetContainerId p record =
     (case find (\<lambda>item. ExtType item = EVENT_HEADER_EXT_TYPE_CONTAINER_ID p)
             (take (unat (ExtendedDataCount record)) (ExtendedData record)) of
        None \<Rightarrow> Some (Returned None)
      | Some item \<Rightarrow> container_id_of_item p item)"
  using GetContainerId_loop_find[OF assms, of 0 p] by (simp add: GetContainerId_def)

lemma GetContainerId_first:
  assumes "unat (ExtendedDataCount record) \<le> length (ExtendedData record)"
    and "k < unat (ExtendedDataCount record)"
    and "ExtType (ExtendedData record ! k) = EVENT_HEADER_EXT_TYPE_CONTAINER_ID p"
    and "\<forall>j<k. ExtType (ExtendedData record ! j) \<noteq> EVENT_HEADER_EXT_TYPE_CONTAINER_ID p"
  shows "GetContainerId p record = container_id_of_item p (ExtendedData record ! k)"
proof -
  let ?n = "unat (ExtendedDataCount record)" and ?items = "ExtendedData record"
  let ?P = "\<lambda>item. ExtType item = EVENT_HEADER_EXT_TYPE_CONTAINER_ID p"
  have "k < length (take ?n ?items)" using assms(1,2) by simp
  moreover have "?P (take ?n ?items ! k)" using assms(2,3) by simp
  moreover have "\<forall>j<k. \<not> ?P (take ?n ?items ! j)" using assms(2,4) by simp
  ultimately have "find ?P (take ?n ?items) = Some (take ?n ?items ! k)"
    unfolding find_Some_iff by blast
  then show ?thesis
    using assms(2) by (simp add: GetContainerId_find[OF assms(1)])
qed

section \<open>The claims about the hex decoders\<close>

text \<open>
  C7. Whatever two characters \<open>msd\<close> and \<open>lsd\<close> stand at the pointer, and whatever
  follows them in memory (\<open>rest\<close>, which may be empty), \<^verbatim>\<open>hex_octet_to_byte\<close> is defined,
  returns true exactly when both characters are in \<open>0-9\<close>, \<open>A-F\<close>, \<open>a-f\<close>, and then
  outputs the byte \<open>16 * value msd + value lsd\<close>; its result does not depend on \<open>rest\<close>,
  so nothing beyond the two characters is read.
\<close>

theorem hex_octet_to_byte_correct:
  "hex_octet_to_byte (msd # lsd # rest) byte_output =
     Some (if is_hex_char msd \<and> is_hex_char lsd then (True, octet_value msd lsd)
           else (False, byte_output)) \<and>
   (is_hex_char msd \<and> is_hex_char lsd \<longrightarrow>
      unat (octet_value msd lsd) = 16 * hex_digit_value msd + hex_digit_value lsd)"
  by (simp add: hex_octet_to_byte_Cons octet_value_unat)

theorem hex_octet_to_byte_correct_witness:
  "is_hex_char 0x61 \<and> is_hex_char 0x39 \<and>
   hex_octet_to_byte [0x61, 0x39] 0 = Some (True, 0xA9) \<and>
   unat (0xA9 :: uchar) = 16 * hex_digit_value 0x61 + hex_digit_value 0x39"
proof -
  have h: "is_hex_char 0x61 \<and> is_hex_char 0x39"
    by (simp add: is_hex_char_def cstr_def)
  have v: "octet_value 0x61 0x39 = 0xA9"
    by (simp add: octet_value_def hex_digit_value_def cstr_def)
  from h v hex_octet_to_byte_correct[of "0x61" "0x39" "[]" 0]
  show ?thesis by simp
qed

text \<open>
  C10. When \<^verbatim>\<open>hex_octet_to_byte\<close> or \<^verbatim>\<open>hex_string_to_number\<close> returns false, the
  reference parameter \<^verbatim>\<open>byte_output\<close> or \<^verbatim>\<open>int_output\<close> holds the value it held before
  the call.
\<close>

theorem failure_leaves_output_unchanged:
  "(hex_octet_to_byte str_input byte_output = Some (False, b) \<longrightarrow> b = byte_output) \<and>
   (hex_string_to_number str_input' (int_output :: 'a::len word) = Some (False, n)
      \<longrightarrow> n = int_output)"
proof
  show "hex_octet_to_byte str_input byte_output = Some (False, b) \<longrightarrow> b = byte_output"
    by (simp add: hex_octet_to_byte_eq split: if_splits)
  show "hex_string_to_number str_input' int_output = Some (False, n) \<longrightarrow> n = int_output"
    unfolding hex_string_to_number_def by (blast dest: hex_string_to_number_loop_failure)
qed

theorem failure_leaves_output_unchanged_witness:
  "hex_octet_to_byte (cstr ''0g'') 0xAA = Some (False, 0xAA) \<and>
   hex_string_to_number (cstr ''12g4'') (0xBBBB :: 16 word) = Some (False, 0xBBBB)"
proof -
  obtain b where b: "hex_octet_to_byte (cstr ''0g'') 0xAA = Some (False, b)"
    by (simp add: cstr_def hex_octet_to_byte_Cons is_hex_char_def)
  have "hex_string_to_number (cstr ''12g4'') (0xBBBB :: 16 word) \<noteq> None"
    by code_simp
  moreover have "fst (the (hex_string_to_number (cstr ''12g4'') (0xBBBB :: 16 word))) = False"
    by code_simp
  ultimately obtain n where
    n: "hex_string_to_number (cstr ''12g4'') (0xBBBB :: 16 word) = Some (False, n)"
    by (metis option.collapse prod.collapse)
  from failure_leaves_output_unchanged[where str_input = "cstr ''0g''" and byte_output = "0xAA"
      and b = b and str_input' = "cstr ''12g4''" and int_output = "0xBBBB :: 16 word" and n = n]
    b n
  show ?thesis by simp
qed

text \<open>
  C6, as the code has it. \<^verbatim>\<open>hex_string_to_bytes\<close> decodes each octet straight into the
  caller's buffer, so a failure is not atomic: on \<^verbatim>\<open>"00zz"\<close> with a buffer holding
  \<open>AA BB\<close> it returns false and leaves \<open>00 BB\<close>.
\<close>

theorem hex_string_to_bytes_partial_output:
  "hex_string_to_bytes (cstr ''00zz'') [0xAA, 0xBB] 2 = Some (False, [0x00, 0xBB]) \<and>
   [0x00, 0xBB] \<noteq> [0xAA, 0xBB :: uchar]"
  by (simp add: cstr_def hex_string_to_bytes_eq is_hex_char_def octet_value_def hex_digit_value_def)

text \<open>
  C6, amended. When one of the first \<^verbatim>\<open>byte_count\<close> octets holds a character that is
  not a hex digit, \<^verbatim>\<open>hex_string_to_bytes\<close> returns false; the bytes of the output before
  the first such octet (octet \<open>k\<close>) hold the decoded octets, and the bytes from index
  \<open>k\<close> on are as they were.
\<close>

theorem hex_string_to_bytes_failure:
  assumes "2 * byte_count \<le> length str_input" and "byte_count \<le> length byte_output"
    and "\<not> list_all is_hex_char (take (2 * byte_count) str_input)"
  shows "\<exists>k<byte_count.
     k = valid_octets (take (2 * byte_count) str_input) \<and>
     hex_string_to_bytes str_input byte_output byte_count =
       Some (False, hex_run_bytes (take (2 * k) str_input) @ drop k byte_output)"
proof -
  let ?k = "valid_octets (take (2 * byte_count) str_input)"
  have "?k \<le> byte_count"
    using valid_octets_le[of "take (2 * byte_count) str_input"] assms(1) by simp
  moreover have "?k \<noteq> byte_count"
    using min_valid_octets[OF assms(1)] assms(3) by auto
  ultimately have lt: "?k < byte_count" by simp
  then have "min byte_count ?k = ?k" by simp
  with lt show ?thesis
    by (simp add: hex_string_to_bytes_eq[OF assms(1,2)] Let_def)
qed

theorem hex_string_to_bytes_failure_witness:
  "hex_string_to_bytes (cstr ''0102zz04'') [0xAA, 0xBB, 0xCC, 0xDD] 4
     = Some (False, [0x01, 0x02, 0xCC, 0xDD])"
proof -
  let ?s = "cstr ''0102zz04''" and ?out = "[0xAA, 0xBB, 0xCC, 0xDD :: uchar]"
  have 1: "2 * 4 \<le> length ?s" by (simp add: cstr_def)
  have 2: "4 \<le> length ?out" by simp
  have 3: "\<not> list_all is_hex_char (take (2 * 4) ?s)"
    by (simp add: cstr_def is_hex_char_def)
  have k: "valid_octets (take (2 * 4) ?s) = 2"
    by (simp add: cstr_def is_hex_char_def)
  from hex_string_to_bytes_failure[OF 1 2 3] k
  have "hex_string_to_bytes ?s ?out 4 = Some (False, hex_run_bytes (take (2 * 2) ?s) @ drop 2 ?out)"
    by simp
  then show ?thesis
    by (simp add: cstr_def octet_value_def hex_digit_value_def)
qed

section \<open>The claims about \<^verbatim>\<open>parse_guid\<close>\<close>

text \<open>
  C3. Whatever the string, a \<^verbatim>\<open>length\<close> other than 36 makes \<^verbatim>\<open>parse_guid\<close> throw the
  length error, before any character is read.
\<close>

theorem parse_guid_length_rejection:
  "length' \<noteq> 36 \<Longrightarrow> parse_guid str length' = Some (Inl (IncorrectLength length'))"
proof -
  assume "length' \<noteq> 36"
  then have "unat length' \<noteq> 36"
    by (auto simp: word_unat_eq_iff)
  then show ?thesis by (simp add: parse_guid_def UUID_STRING_LENGTH_def)
qed

theorem parse_guid_length_rejection_witness:
  "(35 :: 32 word) \<noteq> 36 \<and>
   parse_guid (cstr ''00000000-0000-0000-0000-00000000000'') 35 = Some (Inl (IncorrectLength 35))"
  using parse_guid_length_rejection[of 35 "cstr ''00000000-0000-0000-0000-00000000000''"]
  by simp

text \<open>
  C1. For a 36-character input with hyphens at the positions 8, 13, 18 and 23 and a hex
  digit at every other position, \<^verbatim>\<open>parse_guid\<close> returns a GUID: \<^verbatim>\<open>Data1\<close> is the number
  the 8 digits at \<open>[0,8)\<close> denote, \<^verbatim>\<open>Data2\<close> and \<^verbatim>\<open>Data3\<close> the numbers the digits at
  \<open>[9,13)\<close> and \<open>[14,18)\<close> denote, and \<^verbatim>\<open>Data4\<close> the two bytes decoded from \<open>[19,23)\<close>
  followed by the six decoded from \<open>[24,36)\<close>.
\<close>

theorem parse_guid_decodes_fields:
  assumes "length str = 36" and "hyphens_in_place str"
    and "\<forall>i<36. i \<notin> {8, 13, 18, 23} \<longrightarrow> is_hex_char (str ! i)"
  shows "\<exists>guid. parse_guid str 36 = Some (Inr guid) \<and>
     unat (Data1 guid) = hex_run_value (substr 0 8 str) \<and>
     unat (Data2 guid) = hex_run_value (substr 9 13 str) \<and>
     unat (Data3 guid) = hex_run_value (substr 14 18 str) \<and>
     Data4 guid = hex_run_bytes (substr 19 23 str) @ hex_run_bytes (substr 24 36 str) \<and>
     length (Data4 guid) = 8"
proof -
  from assms have len: "36 \<le> length str" and h: "hex_digits_in_place str"
    by (simp_all add: hex_digits_in_place_iff)
  from len h assms(2) have p: "parse_guid str 36 = Some (Inr (guid_of_text str))"
    by (simp add: parse_guid_eq)
  have 1: "unat (of_nat (hex_run_value (substr 0 8 str)) :: 32 word) = hex_run_value (substr 0 8 str)"
    using h len by (intro unat_hex_run_value) (simp_all add: hex_digits_in_place_def substr_def)
  have 2: "unat (of_nat (hex_run_value (substr 9 13 str)) :: 16 word) = hex_run_value (substr 9 13 str)"
    using h len by (intro unat_hex_run_value) (simp_all add: hex_digits_in_place_def substr_def)
  have 3: "unat (of_nat (hex_run_value (substr 14 18 str)) :: 16 word) = hex_run_value (substr 14 18 str)"
    using h len by (intro unat_hex_run_value) (simp_all add: hex_digits_in_place_def substr_def)
  have 4: "length (hex_run_bytes (substr 19 23 str) @ hex_run_bytes (substr 24 36 str)) = 8"
    using len by (simp add: length_hex_run_bytes substr_def)
  show ?thesis
    unfolding p using 1 2 3 4 by (simp add: guid_of_text_def)
qed

theorem parse_guid_decodes_fields_witness:
  "parse_guid (cstr ''0123ABcd-4567-89ab-cDeF-0123456789ab'') 36 =
     Some (Inr \<lparr>Data1 = 0x0123ABCD, Data2 = 0x4567, Data3 = 0x89AB,
                Data4 = [0xCD, 0xEF, 0x01, 0x23, 0x45, 0x67, 0x89, 0xAB]\<rparr>)"
proof -
  let ?s = "cstr ''0123ABcd-4567-89ab-cDeF-0123456789ab''"
  have l: "length ?s = 36" by (simp add: cstr_def)
  have y: "hyphens_in_place ?s" by (simp add: cstr_def hyphens_in_place_def)
  have "hex_digits_in_place ?s"
    by (simp add: cstr_def hex_digits_in_place_def substr_def is_hex_char_def)
  then have d: "\<forall>i<36. i \<notin> {8, 13, 18, 23} \<longrightarrow> is_hex_char (?s ! i)"
    using l by (simp add: hex_digits_in_place_iff)
  from parse_guid_decodes_fields[OF l y d] obtain guid where
    g: "parse_guid ?s 36 = Some (Inr guid)" and
    "unat (Data1 guid) = hex_run_value (substr 0 8 ?s)"
    "unat (Data2 guid) = hex_run_value (substr 9 13 ?s)"
    "unat (Data3 guid) = hex_run_value (substr 14 18 ?s)"
    "Data4 guid = hex_run_bytes (substr 19 23 ?s) @ hex_run_bytes (substr 24 36 ?s)"
    by blast
  then have "unat (Data1 guid) = 0x0123ABCD" "unat (Data2 guid) = 0x4567"
    "unat (Data3 guid) = 0x89AB"
    "Data4 guid = [0xCD, 0xEF, 0x01, 0x23, 0x45, 0x67, 0x89, 0xAB]"
    by (simp_all add: cstr_def substr_def hex_run_value_def hex_digit_value_def octet_value_def)
  then have "guid = \<lparr>Data1 = 0x0123ABCD, Data2 = 0x4567, Data3 = 0x89AB,
                Data4 = [0xCD, 0xEF, 0x01, 0x23, 0x45, 0x67, 0x89, 0xAB]\<rparr>"
    by (cases guid) (simp add: word_unat_eq_iff)
  with g show ?thesis by simp
qed

text \<open>
  C4. In a 36-character string that \<^verbatim>\<open>parse_guid\<close> accepts, putting a character other
  than the hyphen at one of the positions 8, 13, 18, 23 gives the missing-hyphen error,
  and putting a hyphen at any other position gives the non-hex-digit error; both are
  the format error of the specification.
\<close>

theorem parse_guid_delimiter_rejection:
  assumes "length str = 36" and "parse_guid str 36 = Some (Inr guid)"
  shows "(i \<in> {8, 13, 18, 23} \<and> c \<noteq> 0x2D \<longrightarrow>
            parse_guid (str[i := c]) 36 = Some (Inl MissingHyphen)) \<and>
         (j < 36 \<and> j \<notin> {8, 13, 18, 23} \<longrightarrow>
            parse_guid (str[j := 0x2D]) 36 = Some (Inl NonHexDigits))"
proof (intro conjI impI)
  from assms have len: "36 \<le> length str" by simp
  from parse_guid_valid[OF len assms(2)]
  have hy: "hyphens_in_place str" and hx: "hex_digits_in_place str" by simp_all
  {
    assume "i \<in> {8, 13, 18, 23} \<and> c \<noteq> 0x2D"
    then have "\<not> hyphens_in_place (str[i := c])"
      using assms(1) by (auto simp add: hyphens_in_place_def)
    then show "parse_guid (str[i := c]) 36 = Some (Inl MissingHyphen)"
      using len by (simp add: parse_guid_eq)
  }
  {
    assume j: "j < 36 \<and> j \<notin> {8, 13, 18, 23}"
    then have "hyphens_in_place (str[j := 0x2D])"
      using hy by (auto simp add: hyphens_in_place_def)
    moreover have "\<not> is_hex_char 0x2D"
      by (simp add: is_hex_char_def cstr_def)
    then have "\<not> is_hex_char (str[j := 0x2D] ! j)"
      using j assms(1) by simp
    then have "\<not> hex_digits_in_place (str[j := 0x2D])"
      using j len by (subst hex_digits_in_place_iff) auto
    ultimately show "parse_guid (str[j := 0x2D]) 36 = Some (Inl NonHexDigits)"
      using len by (simp add: parse_guid_eq)
  }
qed

theorem parse_guid_delimiter_rejection_witness:
  "parse_guid (cstr ''0123ABcd-4567-89ab-cDeF-0123456789ab'') 36 =
     Some (Inr \<lparr>Data1 = 0x0123ABCD, Data2 = 0x4567, Data3 = 0x89AB,
                Data4 = [0xCD, 0xEF, 0x01, 0x23, 0x45, 0x67, 0x89, 0xAB]\<rparr>) \<and>
   parse_guid (cstr ''0123ABcd-4567_89ab-cDeF-0123456789ab'') 36 = Some (Inl MissingHyphen) \<and>
   parse_guid (cstr ''0123ABcd-4567-89ab-cDeF-012345-789ab'') 36 = Some (Inl NonHexDigits)"
proof -
  let ?s = "cstr ''0123ABcd-4567-89ab-cDeF-0123456789ab''"
  let ?g = "\<lparr>Data1 = 0x0123ABCD, Data2 = 0x4567, Data3 = 0x89AB,
                Data4 = [0xCD, 0xEF, 0x01, 0x23, 0x45, 0x67, 0x89, 0xAB]\<rparr>"
  have l: "length ?s = 36" by (simp add: cstr_def)
  have p: "parse_guid ?s 36 = Some (Inr ?g)" by code_simp
  have a: "?s[13 := 0x5F] = cstr ''0123ABcd-4567_89ab-cDeF-0123456789ab''"
    by (simp add: cstr_def)
  have b: "?s[30 := 0x2D] = cstr ''0123ABcd-4567-89ab-cDeF-012345-789ab''"
    by (simp add: cstr_def)
  from parse_guid_delimiter_rejection[OF l p, of 13 "0x5F" 30] p
  show ?thesis unfolding a b by simp
qed

text \<open>
  C5. Two 36-character inputs that differ only in the letter case of hex letters
  (\<open>same_up_to_case\<close> at every position) give the same result of \<^verbatim>\<open>parse_guid\<close>, for
  every \<^verbatim>\<open>length\<close> argument: the same exception, or the same GUID.
\<close>

theorem parse_guid_case_insensitive:
  assumes "length s = 36" and "list_all2 same_up_to_case s t"
  shows "parse_guid t length' = parse_guid s length'"
proof (cases "length' = 36")
  case False
  then have "unat length' \<noteq> 36" by (auto simp: word_unat_eq_iff)
  then show ?thesis by (simp add: parse_guid_def UUID_STRING_LENGTH_def)
next
  case True
  from assms have ls: "36 \<le> length s" and lt: "36 \<le> length t"
    by (simp_all add: list_all2_lengthD[symmetric])
  have nth: "same_up_to_case (s ! i) (t ! i)" if "i < 36" for i
    using assms that by (simp add: list_all2_nthD)
  have hy: "hyphens_in_place t = hyphens_in_place s"
    unfolding hyphens_in_place_def
    using nth[of 8] nth[of 13] nth[of 18] nth[of 23] by (simp add: same_up_to_case_props)
  have sub: "list_all2 same_up_to_case (substr lo hi s) (substr lo hi t)" for lo hi
    using assms(2) by (rule list_all2_substr)
  have hx: "hex_digits_in_place t = hex_digits_in_place s"
    unfolding hex_digits_in_place_def by (simp add: same_up_to_case_list_all[OF sub])
  have g: "guid_of_text t = guid_of_text s"
    unfolding guid_of_text_def hex_run_value_def
    by (simp add: same_up_to_case_foldl[OF sub] same_up_to_case_hex_run_bytes[OF sub])
  show ?thesis
    unfolding True parse_guid_eq[OF ls] parse_guid_eq[OF lt] hy hx g ..
qed

theorem parse_guid_case_insensitive_witness:
  "parse_guid (cstr ''0123abCD-4567-89AB-CdEf-0123456789Ab'') 36 =
   parse_guid (cstr ''0123ABcd-4567-89ab-cDeF-0123456789ab'') 36 \<and>
   parse_guid (cstr ''0123ABcd-4567-89ab-cDeF-0123456789ab'') 36 =
     Some (Inr \<lparr>Data1 = 0x0123ABCD, Data2 = 0x4567, Data3 = 0x89AB,
                Data4 = [0xCD, 0xEF, 0x01, 0x23, 0x45, 0x67, 0x89, 0xAB]\<rparr>)"
proof -
  let ?s = "cstr ''0123ABcd-4567-89ab-cDeF-0123456789ab''"
  let ?t = "cstr ''0123abCD-4567-89AB-CdEf-0123456789Ab''"
  have l: "length ?s = 36" by (simp add: cstr_def)
  have r: "list_all2 same_up_to_case ?s ?t"
    by (simp add: cstr_def same_up_to_case_def flip_case_def)
  have p: "parse_guid ?s 36 = Some (Inr \<lparr>Data1 = 0x0123ABCD, Data2 = 0x4567, Data3 = 0x89AB,
                Data4 = [0xCD, 0xEF, 0x01, 0x23, 0x45, 0x67, 0x89, 0xAB]\<rparr>)"
    by code_simp
  from parse_guid_case_insensitive[OF l r, of 36] p show ?thesis by simp
qed

section \<open>The claim about the string conversions\<close>

text \<open>
  C2. For every 16-byte value \<open>v\<close> (a \<^verbatim>\<open>GUID\<close> structure, whose \<^verbatim>\<open>Data4\<close> has its 8
  bytes), parsing the canonical string produced for \<open>v\<close>, in lower or in upper case,
  gives back \<open>v\<close>.
\<close>

theorem canonical_string_round_trip:
  assumes "length (Data4 v) = 8"
  shows "from_canonical_string (to_canonical_string upper (from_bytes v)) = Some (Inr (from_bytes v))"
proof -
  let ?A = "bytes_to_hex upper (number_bytes 4 (Data1 v))"
  let ?B = "bytes_to_hex upper (number_bytes 2 (Data2 v))"
  let ?C = "bytes_to_hex upper (number_bytes 2 (Data3 v))"
  let ?D = "bytes_to_hex upper (take 2 (Data4 v))"
  let ?E = "bytes_to_hex upper (drop 2 (Data4 v))"
  let ?text = "?A @ [0x2D] @ ?B @ [0x2D] @ ?C @ [0x2D] @ ?D @ [0x2D] @ ?E"
  have lens: "length ?A = 8" "length ?B = 4" "length ?C = 4" "length ?D = 4" "length ?E = 12"
    using assms by (simp_all add: length_bytes_to_hex length_number_bytes)
  note lay = canonical_layout[OF lens, of "0x2D"]
  have tcs: "to_canonical_string upper (from_bytes v) = ?text"
    by (simp add: to_canonical_string_def from_bytes_def)
  have hy: "hyphens_in_place ?text"
    unfolding hyphens_in_place_def by (simp only: lay simp_thms)
  have hx: "hex_digits_in_place ?text"
    unfolding hex_digits_in_place_def by (simp only: lay bytes_to_hex_all simp_thms)
  have "guid_of_text ?text = \<lparr>Data1 = Data1 v, Data2 = Data2 v, Data3 = Data3 v,
      Data4 = take 2 (Data4 v) @ drop 2 (Data4 v)\<rparr>"
    unfolding guid_of_text_def
    by (simp only: lay number_of_bytes_32 number_of_bytes_16 hex_run_bytes_bytes_to_hex)
  then have g: "guid_of_text ?text = v" by simp
  have n: "(of_nat (length ?text) :: 32 word) = 36" by (simp only: lay) simp
  have "parse_guid ?text 36 = Some (Inr v)"
    using hy hx g lay(1) by (simp add: parse_guid_eq)
  then show ?thesis
    unfolding tcs from_canonical_string_def n by (simp add: from_bytes_def)
qed

theorem canonical_string_round_trip_witness:
  "to_canonical_string False
     \<lparr>Data1 = 0x0123ABCD, Data2 = 0x4567, Data3 = 0x89AB,
      Data4 = [0xCD, 0xEF, 0x01, 0x23, 0x45, 0x67, 0x89, 0xAB]\<rparr>
     = cstr ''0123abcd-4567-89ab-cdef-0123456789ab'' \<and>
   from_canonical_string (cstr ''0123abcd-4567-89ab-cdef-0123456789ab'') =
     Some (Inr \<lparr>Data1 = 0x0123ABCD, Data2 = 0x4567, Data3 = 0x89AB,
                Data4 = [0xCD, 0xEF, 0x01, 0x23, 0x45, 0x67, 0x89, 0xAB]\<rparr>)"
proof -
  let ?v = "\<lparr>Data1 = 0x0123ABCD, Data2 = 0x4567, Data3 = 0x89AB,
      Data4 = [0xCD, 0xEF, 0x01, 0x23, 0x45, 0x67, 0x89, 0xAB]\<rparr>"
  have l: "length (Data4 ?v) = 8" by simp
  have t: "to_canonical_string False ?v = cstr ''0123abcd-4567-89ab-cdef-0123456789ab''"
    by code_simp
  from canonical_string_round_trip[OF l, of False] t show ?thesis
    by (simp add: from_bytes_def)
qed

section \<open>The claims about \<^verbatim>\<open>GetContainerId\<close>\<close>

text \<open>
  C8. In a record whose declared items are all there, \<^verbatim>\<open>GetContainerId\<close> returns null,
  and throws nothing, when no item (none at all, or none of the declared ones) carries
  the container-id tag; and when item \<open>k\<close> is the first that carries it, the result is
  what the body of the \<^verbatim>\<open>if\<close> computes from item \<open>k\<close> alone, whatever the other items
  are.
\<close>

theorem container_id_absent_or_first:
  assumes "unat (ExtendedDataCount record) \<le> length (ExtendedData record)"
  shows "((\<forall>j < unat (ExtendedDataCount record).
             ExtType (ExtendedData record ! j) \<noteq> EVENT_HEADER_EXT_TYPE_CONTAINER_ID p)
          \<longrightarrow> GetContainerId p record = Some (Returned None)) \<and>
         (k < unat (ExtendedDataCount record) \<and>
          ExtType (ExtendedData record ! k) = EVENT_HEADER_EXT_TYPE_CONTAINER_ID p \<and>
          (\<forall>j<k. ExtType (ExtendedData record ! j) \<noteq> EVENT_HEADER_EXT_TYPE_CONTAINER_ID p)
          \<longrightarrow> GetContainerId p record = container_id_of_item p (ExtendedData record ! k))"
proof (intro conjI impI)
  let ?n = "unat (ExtendedDataCount record)" and ?items = "ExtendedData record"
  let ?P = "\<lambda>item. ExtType item = EVENT_HEADER_EXT_TYPE_CONTAINER_ID p"
  assume none: "\<forall>j < ?n. ExtType (?items ! j) \<noteq> EVENT_HEADER_EXT_TYPE_CONTAINER_ID p"
  have "\<not> ?P x" if "x \<in> set (take ?n ?items)" for x
  proof -
    from that obtain j where "j < length (take ?n ?items)" "x = take ?n ?items ! j"
      by (auto simp add: in_set_conv_nth)
    with none assms show ?thesis by simp
  qed
  then have "find ?P (take ?n ?items) = None"
    unfolding find_None_iff by blast
  then show "GetContainerId p record = Some (Returned None)"
    by (simp add: GetContainerId_find[OF assms])
next
  assume "k < unat (ExtendedDataCount record) \<and>
          ExtType (ExtendedData record ! k) = EVENT_HEADER_EXT_TYPE_CONTAINER_ID p \<and>
          (\<forall>j<k. ExtType (ExtendedData record ! j) \<noteq> EVENT_HEADER_EXT_TYPE_CONTAINER_ID p)"
  then show "GetContainerId p record = container_id_of_item p (ExtendedData record ! k)"
    using GetContainerId_first[OF assms] by blast
qed

theorem container_id_absent_or_first_witness:
  "GetContainerId
     \<lparr>EVENT_HEADER_EXT_TYPE_CONTAINER_ID = 0x10, CLSIDFromString = CLSIDFromString_model,
      ConvertGuid = from_bytes, assertions_enabled = True\<rparr>
     \<lparr>ExtendedDataCount = 0, ExtendedData = []\<rparr>
   = Some (Returned None) \<and>
   GetContainerId
     \<lparr>EVENT_HEADER_EXT_TYPE_CONTAINER_ID = 0x10, CLSIDFromString = CLSIDFromString_model,
      ConvertGuid = from_bytes, assertions_enabled = True\<rparr>
     \<lparr>ExtendedDataCount = 1,
      ExtendedData = [\<lparr>ExtType = 1, DataSize = 16, DataPtr = cstr ''0123456789abcdef''\<rparr>]\<rparr>
   = Some (Returned None) \<and>
   GetContainerId
     \<lparr>EVENT_HEADER_EXT_TYPE_CONTAINER_ID = 0x10, CLSIDFromString = CLSIDFromString_model,
      ConvertGuid = from_bytes, assertions_enabled = True\<rparr>
     \<lparr>ExtendedDataCount = 3,
      ExtendedData =
        [\<lparr>ExtType = 1, DataSize = 16, DataPtr = cstr ''0123456789abcdef''\<rparr>,
         \<lparr>ExtType = 0x10, DataSize = 36,
          DataPtr = cstr ''00000000-0000-0000-0000-000000000001''\<rparr>,
         \<lparr>ExtType = 0x10, DataSize = 36,
          DataPtr = cstr ''00000000-0000-0000-0000-000000000002''\<rparr>]\<rparr>
   = Some (Returned (Some \<lparr>Data1 = 0, Data2 = 0, Data3 = 0, Data4 = [0, 0, 0, 0, 0, 0, 0, 1]\<rparr>))"
proof -
  let ?p = "\<lparr>EVENT_HEADER_EXT_TYPE_CONTAINER_ID = 0x10, CLSIDFromString = CLSIDFromString_model,
      ConvertGuid = from_bytes, assertions_enabled = True\<rparr>"
  let ?other = "\<lparr>ExtType = 1, DataSize = 16, DataPtr = cstr ''0123456789abcdef''\<rparr>"
  let ?first = "\<lparr>ExtType = 0x10, DataSize = 36,
          DataPtr = cstr ''00000000-0000-0000-0000-000000000001''\<rparr>"
  let ?second = "\<lparr>ExtType = 0x10, DataSize = 36,
          DataPtr = cstr ''00000000-0000-0000-0000-000000000002''\<rparr>"
  let ?r0 = "\<lparr>ExtendedDataCount = 0, ExtendedData = []\<rparr>"
  let ?r1 = "\<lparr>ExtendedDataCount = 1, ExtendedData = [?other]\<rparr>"
  let ?r3 = "\<lparr>ExtendedDataCount = 3, ExtendedData = [?other, ?first, ?second]\<rparr>"
  have "unat (ExtendedDataCount ?r0) \<le> length (ExtendedData ?r0)" by simp
  from container_id_absent_or_first[OF this, of ?p]
  have a: "GetContainerId ?p ?r0 = Some (Returned None)" by simp
  have "unat (ExtendedDataCount ?r1) \<le> length (ExtendedData ?r1)" by simp
  from container_id_absent_or_first[OF this, of ?p]
  have b: "GetContainerId ?p ?r1 = Some (Returned None)" by simp
  have "unat (ExtendedDataCount ?r3) \<le> length (ExtendedData ?r3)" by simp
  from container_id_absent_or_first[OF this, of ?p 1]
  have "GetContainerId ?p ?r3 = container_id_of_item ?p ?first" by simp
  also have "\<dots> = Some (Returned (Some \<lparr>Data1 = 0, Data2 = 0, Data3 = 0,
      Data4 = [0, 0, 0, 0, 0, 0, 0, 1]\<rparr>))"
    by code_simp
  finally show ?thesis using a b by simp
qed




end
